theory Spec2Isabelle
  imports Complex_Main "HOL-Library.Log_Nat"
begin

section \<open>Request (Request.h, Request.cpp)\<close>

text \<open>
  The C++ class \<^verbatim>\<open>Request\<close> is a plain value with six fields. The field
  \<^verbatim>\<open>arrivalTime\<close> is a \<^verbatim>\<open>steady_clock\<close> reading that no method of the
  queue, the server or the load balancer consults; it is left out of the record, together
  with \<^verbatim>\<open>getWaitTime\<close>, which reads the clock again.

  The C++ type \<^verbatim>\<open>int\<close> is read as a mathematical integer. Signed overflow is
  undefined behaviour in C++, so the language itself gives no wrap-around to model; every
  statement below is about executions in which no counter leaves the range of
  \<^verbatim>\<open>int\<close>.

  The C++ type \<^verbatim>\<open>double\<close> is IEEE 754 binary64 with rounding to nearest, ties to
  even, wherever a value is compared: the utilization of a server, the system utilization
  and the two guards of \<^verbatim>\<open>checkLoadBalancing\<close>. The two read-outs that nothing in
  the modelled code compares, \<^verbatim>\<open>RequestQueue::getUtilization\<close> and
  \<^verbatim>\<open>LoadBalancer::getAverageProcessingTime\<close>, are given as the exact value of their
  C++ expression.
\<close>

record Request =
  clientIP :: string
  requestType :: string
  priority :: int
  processingTime :: int
  requestID :: int

text \<open>\<^verbatim>\<open>Request::Request()\<close>\<close>

definition Request_default :: Request where
  "Request_default =
     \<lparr>clientIP = ''0.0.0.0'', requestType = ''GET'', priority = 5,
      processingTime = 10, requestID = 0\<rparr>"

text \<open>\<^verbatim>\<open>Request::Request(ip, type, prio, procTime, id)\<close>\<close>

definition Request_new :: "string \<Rightarrow> string \<Rightarrow> int \<Rightarrow> int \<Rightarrow> int \<Rightarrow> Request" where
  "Request_new ip type prio procTime ident =
     \<lparr>clientIP = ip, requestType = type, priority = prio,
      processingTime = procTime, requestID = ident\<rparr>"

definition getClientIP :: "Request \<Rightarrow> string" where
  "getClientIP r = clientIP r"

definition getProcessingTime :: "Request \<Rightarrow> int" where
  "getProcessingTime r = processingTime r"

definition setProcessingTime :: "int \<Rightarrow> Request \<Rightarrow> Request" where
  "setProcessingTime time r = r\<lparr>processingTime := time\<rparr>"


section \<open>IEEE 754 binary64\<close>

text \<open>
  A \<^verbatim>\<open>double\<close> is a finite value, an infinity or a NaN. A finite value is carried
  by the rational number it denotes; every operation below returns values of the binary64
  grid. The two zeros are one value here: the modelled code never divides by a
  \<^verbatim>\<open>double\<close> zero (its divisors are integers it has tested and the literal
  \<^verbatim>\<open>100.0\<close>) and never reads a sign, and comparisons do not tell the zeros apart.
\<close>

datatype double = Finite rat | PlusInfinity | MinusInfinity | NaN

text \<open>The powers of two, with any integer exponent.\<close>

definition pow2 :: "int \<Rightarrow> rat" where
  "pow2 k = 2 powi k"

text \<open>The exponent \<open>e\<close> of a positive rational \<open>a\<close>, the integer with
  \<open>2\<^sup>e \<le> a < 2\<^sup>e\<^sup>+\<^sup>1\<close>. The difference of the bit lengths of numerator and
  denominator is \<open>e\<close> or \<open>e + 1\<close>.\<close>

definition binary_exponent :: "rat \<Rightarrow> int" where
  "binary_exponent a =
     (let estimate = bitlen (fst (quotient_of a)) - bitlen (snd (quotient_of a))
      in if pow2 estimate \<le> a then estimate else estimate - 1)"

text \<open>The nearest integer, a tie going to the even one.\<close>

definition round_half_even :: "rat \<Rightarrow> int" where
  "round_half_even m =
     (let f = \<lfloor>m\<rfloor>; d = m - of_int f
      in if d < 1 / 2 then f else if 1 / 2 < d then f + 1 else if even f then f else f + 1)"

text \<open>
  Rounding to binary64. The significand has 53 bits, so the spacing of the grid at a
  magnitude with exponent \<open>e\<close> is \<open>2\<close> to the \<open>e - 52\<close>; below the smallest normal
  exponent \<open>-1022\<close> the spacing stays \<open>2\<close> to the \<open>-1074\<close> (the subnormal numbers); a
  magnitude that rounds to \<open>2\<close> to the \<open>1024\<close> overflows to an infinity.
\<close>

definition round_to_double :: "rat \<Rightarrow> double" where
  "round_to_double x =
     (if x = 0 then Finite 0
      else
        (let a = \<bar>x\<bar>;
             e = max (binary_exponent a) (- 1022);
             quantum = pow2 (e - 52);
             y = of_int (round_half_even (a / quantum)) * quantum
         in if pow2 1024 \<le> y then (if 0 < x then PlusInfinity else MinusInfinity)
            else Finite (if 0 < x then y else - y)))"

text \<open>A decimal literal of the source, and the conversion of an \<^verbatim>\<open>int\<close>.\<close>

definition d_literal :: "rat \<Rightarrow> double" where
  "d_literal r = round_to_double r"

definition d_of_int :: "int \<Rightarrow> double" where
  "d_of_int n = round_to_double (of_int n)"

text \<open>\<^verbatim>\<open>a + b\<close>, \<^verbatim>\<open>a * b\<close> and \<^verbatim>\<open>a / b\<close>: the exact result, rounded; the
  special values as IEEE 754 has them.\<close>

fun d_add :: "double \<Rightarrow> double \<Rightarrow> double" where
  "d_add (Finite a) (Finite b) = round_to_double (a + b)"
| "d_add NaN b = NaN"
| "d_add a NaN = NaN"
| "d_add PlusInfinity MinusInfinity = NaN"
| "d_add MinusInfinity PlusInfinity = NaN"
| "d_add PlusInfinity b = PlusInfinity"
| "d_add a PlusInfinity = PlusInfinity"
| "d_add MinusInfinity b = MinusInfinity"
| "d_add a MinusInfinity = MinusInfinity"

fun d_mul :: "double \<Rightarrow> double \<Rightarrow> double" where
  "d_mul (Finite a) (Finite b) = round_to_double (a * b)"
| "d_mul NaN b = NaN"
| "d_mul a NaN = NaN"
| "d_mul (Finite a) PlusInfinity =
     (if a = 0 then NaN else if 0 < a then PlusInfinity else MinusInfinity)"
| "d_mul (Finite a) MinusInfinity =
     (if a = 0 then NaN else if 0 < a then MinusInfinity else PlusInfinity)"
| "d_mul PlusInfinity (Finite b) =
     (if b = 0 then NaN else if 0 < b then PlusInfinity else MinusInfinity)"
| "d_mul MinusInfinity (Finite b) =
     (if b = 0 then NaN else if 0 < b then MinusInfinity else PlusInfinity)"
| "d_mul PlusInfinity PlusInfinity = PlusInfinity"
| "d_mul MinusInfinity MinusInfinity = PlusInfinity"
| "d_mul PlusInfinity MinusInfinity = MinusInfinity"
| "d_mul MinusInfinity PlusInfinity = MinusInfinity"

fun d_div :: "double \<Rightarrow> double \<Rightarrow> double" where
  "d_div (Finite a) (Finite b) =
     (if b = 0 then (if a = 0 then NaN else if 0 < a then PlusInfinity else MinusInfinity)
      else round_to_double (a / b))"
| "d_div NaN b = NaN"
| "d_div a NaN = NaN"
| "d_div (Finite a) PlusInfinity = Finite 0"
| "d_div (Finite a) MinusInfinity = Finite 0"
| "d_div PlusInfinity (Finite b) = (if 0 \<le> b then PlusInfinity else MinusInfinity)"
| "d_div MinusInfinity (Finite b) = (if 0 \<le> b then MinusInfinity else PlusInfinity)"
| "d_div PlusInfinity b = NaN"
| "d_div MinusInfinity b = NaN"

text \<open>\<^verbatim>\<open>a < b\<close>; a comparison with a NaN is false. \<^verbatim>\<open>a > b\<close> is \<open>d_less b a\<close>.\<close>

fun d_less :: "double \<Rightarrow> double \<Rightarrow> bool" where
  "d_less (Finite a) (Finite b) = (a < b)"
| "d_less NaN b = False"
| "d_less a NaN = False"
| "d_less a MinusInfinity = False"
| "d_less PlusInfinity b = False"
| "d_less MinusInfinity b = True"
| "d_less a PlusInfinity = True"


section \<open>RequestQueue (RequestQueue.h, RequestQueue.cpp)\<close>

text \<open>
  The \<^verbatim>\<open>std::queue\<close> is a list with its front at the head; \<^verbatim>\<open>push\<close>
  appends and \<^verbatim>\<open>pop\<close> drops the head. The field \<^verbatim>\<open>requestQueue\<close> of the
  class is named \<open>rq_requestQueue\<close> here, since the load balancer has a field of the same
  name.
\<close>

record RequestQueue =
  rq_requestQueue :: "Request list"
  maxSize :: int
  totalRequestsAdded :: int
  totalRequestsRemoved :: int
  blockedIPs :: "string list"

text \<open>\<^verbatim>\<open>RequestQueue::RequestQueue()\<close> and \<^verbatim>\<open>RequestQueue::RequestQueue(int)\<close>\<close>

definition RequestQueue_default :: RequestQueue where
  "RequestQueue_default =
     \<lparr>rq_requestQueue = [], maxSize = 1000, totalRequestsAdded = 0,
      totalRequestsRemoved = 0, blockedIPs = []\<rparr>"

definition RequestQueue_new :: "int \<Rightarrow> RequestQueue" where
  "RequestQueue_new maxQueueSize =
     \<lparr>rq_requestQueue = [], maxSize = maxQueueSize, totalRequestsAdded = 0,
      totalRequestsRemoved = 0, blockedIPs = []\<rparr>"

definition RequestQueue_isEmpty :: "RequestQueue \<Rightarrow> bool" where
  "RequestQueue_isEmpty q = (rq_requestQueue q = [])"

definition RequestQueue_getSize :: "RequestQueue \<Rightarrow> int" where
  "RequestQueue_getSize q = int (length (rq_requestQueue q))"

definition RequestQueue_isFull :: "RequestQueue \<Rightarrow> bool" where
  "RequestQueue_isFull q = (RequestQueue_getSize q \<ge> maxSize q)"

text \<open>\<^verbatim>\<open>std::find(blockedIPs.begin(), blockedIPs.end(), ip) != blockedIPs.end()\<close>\<close>

definition isIPBlocked :: "string \<Rightarrow> RequestQueue \<Rightarrow> bool" where
  "isIPBlocked ip q = (ip \<in> set (blockedIPs q))"

definition RequestQueue_blockIP :: "string \<Rightarrow> RequestQueue \<Rightarrow> RequestQueue" where
  "RequestQueue_blockIP ip q =
     (if \<not> isIPBlocked ip q then q\<lparr>blockedIPs := blockedIPs q @ [ip]\<rparr> else q)"

text \<open>\<^verbatim>\<open>erase\<close> at the iterator returned by \<^verbatim>\<open>std::find\<close> removes the first
  occurrence only.\<close>

definition RequestQueue_unblockIP :: "string \<Rightarrow> RequestQueue \<Rightarrow> RequestQueue" where
  "RequestQueue_unblockIP ip q =
     (if ip \<in> set (blockedIPs q) then q\<lparr>blockedIPs := remove1 ip (blockedIPs q)\<rparr> else q)"

text \<open>\<^verbatim>\<open>RequestQueue::addRequest\<close>: the result is the returned flag and the queue
  after the call.\<close>

definition RequestQueue_addRequest :: "Request \<Rightarrow> RequestQueue \<Rightarrow> bool \<times> RequestQueue" where
  "RequestQueue_addRequest request q =
     (if isIPBlocked (getClientIP request) q then (False, q)
      else if RequestQueue_isFull q then (False, q)
      else (True, q\<lparr>rq_requestQueue := rq_requestQueue q @ [request],
                     totalRequestsAdded := totalRequestsAdded q + 1\<rparr>))"

text \<open>\<^verbatim>\<open>RequestQueue::getNextRequest\<close>: an empty queue hands out a default-constructed
  request and stays as it is.\<close>

definition getNextRequest :: "RequestQueue \<Rightarrow> Request \<times> RequestQueue" where
  "getNextRequest q =
     (case rq_requestQueue q of
        [] \<Rightarrow> (Request_default, q)
      | nextRequest # rest \<Rightarrow>
          (nextRequest, q\<lparr>rq_requestQueue := rest,
                          totalRequestsRemoved := totalRequestsRemoved q + 1\<rparr>))"

definition RequestQueue_clear :: "RequestQueue \<Rightarrow> RequestQueue" where
  "RequestQueue_clear q = q\<lparr>rq_requestQueue := []\<rparr>"

text \<open>\<^verbatim>\<open>RequestQueue::getUtilization\<close>:
  \<^verbatim>\<open>(static_cast<double>(getSize()) / maxSize) * 100.0\<close>, and \<^verbatim>\<open>0.0\<close> when
  \<^verbatim>\<open>maxSize == 0\<close>.\<close>

definition RequestQueue_getUtilization :: "RequestQueue \<Rightarrow> real" where
  "RequestQueue_getUtilization q =
     (if maxSize q = 0 then 0
      else (real_of_int (RequestQueue_getSize q) / real_of_int (maxSize q)) * 100)"


section \<open>WebServer (WebServer.h, WebServer.cpp)\<close>

text \<open>
  Three fields carry the prefix \<open>ws_\<close> because the load balancer has fields of the same
  names: \<^verbatim>\<open>requestQueue\<close>, \<^verbatim>\<open>totalRequestsProcessed\<close> and
  \<^verbatim>\<open>totalProcessingTime\<close>.
\<close>

record WebServer =
  serverID :: int
  serverIP :: string
  maxCapacity :: int
  currentLoad :: int
  ws_requestQueue :: "Request list"
  isActive :: bool
  ws_totalRequestsProcessed :: int
  ws_totalProcessingTime :: int

text \<open>\<^verbatim>\<open>WebServer::WebServer(int id, const std::string& ip, int capacity)\<close>\<close>

definition WebServer_new :: "int \<Rightarrow> string \<Rightarrow> int \<Rightarrow> WebServer" where
  "WebServer_new ident ip capacity =
     \<lparr>serverID = ident, serverIP = ip, maxCapacity = capacity, currentLoad = 0,
      ws_requestQueue = [], isActive = True, ws_totalRequestsProcessed = 0,
      ws_totalProcessingTime = 0\<rparr>"

definition setIsActive :: "bool \<Rightarrow> WebServer \<Rightarrow> WebServer" where
  "setIsActive active w = w\<lparr>isActive := active\<rparr>"

text \<open>\<^verbatim>\<open>WebServer::addRequest\<close>\<close>

definition WebServer_addRequest :: "Request \<Rightarrow> WebServer \<Rightarrow> bool \<times> WebServer" where
  "WebServer_addRequest request w =
     (if \<not> isActive w \<or> currentLoad w \<ge> maxCapacity w then (False, w)
      else (True, w\<lparr>ws_requestQueue := ws_requestQueue w @ [request],
                     currentLoad := currentLoad w + 1\<rparr>))"

definition canAcceptRequest :: "WebServer \<Rightarrow> bool" where
  "canAcceptRequest w = (isActive w \<and> currentLoad w < maxCapacity w)"

text \<open>
  The \<^verbatim>\<open>while (!requestQueue.empty())\<close> loop of \<^verbatim>\<open>WebServer::processCycle\<close>.
  Its first argument is what is left of \<^verbatim>\<open>requestQueue\<close>; the triple is the local
  \<^verbatim>\<open>completedRequests\<close>, the local \<^verbatim>\<open>tempQueue\<close> and the server whose counters
  the body updates.
\<close>

fun processCycle_loop ::
  "Request list \<Rightarrow> int \<times> Request list \<times> WebServer \<Rightarrow> int \<times> Request list \<times> WebServer" where
  "processCycle_loop [] (completedRequests, tempQueue, w) = (completedRequests, tempQueue, w)"
| "processCycle_loop (currentRequest # rest) (completedRequests, tempQueue, w) =
     (let remainingTime = getProcessingTime currentRequest - 1 in
      if remainingTime \<le> 0 then
        processCycle_loop rest
          (completedRequests + 1, tempQueue,
           w\<lparr>ws_totalRequestsProcessed := ws_totalRequestsProcessed w + 1,
             ws_totalProcessingTime :=
               ws_totalProcessingTime w + getProcessingTime currentRequest,
             currentLoad := currentLoad w - 1\<rparr>)
      else
        processCycle_loop rest
          (completedRequests,
           tempQueue @ [setProcessingTime remainingTime currentRequest], w))"

text \<open>\<^verbatim>\<open>WebServer::processCycle\<close>: the number of completions and the server after
  the call.\<close>

definition WebServer_processCycle :: "WebServer \<Rightarrow> int \<times> WebServer" where
  "WebServer_processCycle w =
     (if \<not> isActive w \<or> ws_requestQueue w = [] then (0, w)
      else (case processCycle_loop (ws_requestQueue w) (0, [], w) of
              (completedRequests, tempQueue, w') \<Rightarrow>
                (completedRequests, w'\<lparr>ws_requestQueue := tempQueue\<rparr>)))"

text \<open>\<^verbatim>\<open>WebServer::getUtilization\<close>, a percentage:
  \<^verbatim>\<open>(static_cast<double>(currentLoad) / maxCapacity) * 100.0\<close>, where the division
  converts \<^verbatim>\<open>maxCapacity\<close> to \<^verbatim>\<open>double\<close>.\<close>

definition WebServer_getUtilization :: "WebServer \<Rightarrow> double" where
  "WebServer_getUtilization w =
     (if maxCapacity w = 0 then Finite 0
      else d_mul (d_div (d_of_int (currentLoad w)) (d_of_int (maxCapacity w)))
             (d_literal 100))"


section \<open>LoadBalancer (LoadBalancer.h, LoadBalancer.cpp)\<close>

text \<open>
  The vector of \<^verbatim>\<open>unique_ptr<WebServer>\<close> is a list of servers: each server has one
  owner, so there is no aliasing to model. The field \<^verbatim>\<open>nextServerIndex\<close> is an
  \<^verbatim>\<open>int\<close> that only ever holds \<^verbatim>\<open>0\<close> or the result of an unsigned
  \<^verbatim>\<open>% servers.size()\<close>; it is a natural number here, so that the conversion to
  \<^verbatim>\<open>size_t\<close> in \<^verbatim>\<open>(serverIndex + i) % servers.size()\<close> is the identity.
\<close>

record LoadBalancer =
  servers :: "WebServer list"
  requestQueue :: RequestQueue
  nextServerIndex :: nat
  totalRequestsProcessed :: int
  totalProcessingTime :: int
  maxServers :: int
  minServers :: int
  loadThreshold :: double

text \<open>\<^verbatim>\<open>std::to_string\<close> on an \<^verbatim>\<open>int\<close>: decimal digits, with a minus sign for a
  negative number.\<close>

fun digits_of_nat :: "nat \<Rightarrow> string" where
  "digits_of_nat n =
     (if n < 10 then [char_of (48 + n)]
      else digits_of_nat (n div 10) @ [char_of (48 + n mod 10)])"

definition to_string :: "int \<Rightarrow> string" where
  "to_string n = (if n < 0 then CHR ''-'' # digits_of_nat (nat (- n)) else digits_of_nat (nat n))"

text \<open>\<^verbatim>\<open>LoadBalancer::addServer\<close>\<close>

definition addServer :: "LoadBalancer \<Rightarrow> bool \<times> LoadBalancer" where
  "addServer lb =
     (if int (length (servers lb)) \<ge> maxServers lb then (False, lb)
      else
        (let serverID = int (length (servers lb)) + 1;
             serverIP = ''192.168.1.'' @ to_string serverID
         in (True, lb\<lparr>servers := servers lb @ [WebServer_new serverID serverIP 5]\<rparr>)))"

text \<open>
  \<^verbatim>\<open>LoadBalancer::removeServer\<close>. \<^verbatim>\<open>pop_back\<close> drops the last server with
  whatever it holds. On an empty vector \<^verbatim>\<open>pop_back\<close> has undefined behaviour; the
  guard lets that case through when \<^verbatim>\<open>minServers\<close> is negative, and the model
  returns \<open>None\<close> there.
\<close>

definition removeServer :: "LoadBalancer \<Rightarrow> (bool \<times> LoadBalancer) option" where
  "removeServer lb =
     (if int (length (servers lb)) \<le> minServers lb then Some (False, lb)
      else if servers lb = [] then None
      else Some (True, lb\<lparr>servers := butlast (servers lb)\<rparr>))"

text \<open>The constructor's loop \<^verbatim>\<open>for (int i = 0; i < initialServers; ++i) addServer();\<close>\<close>

function addInitialServers :: "int \<Rightarrow> int \<Rightarrow> LoadBalancer \<Rightarrow> LoadBalancer" where
  "addInitialServers i initialServers lb =
     (if i < initialServers then addInitialServers (i + 1) initialServers (snd (addServer lb))
      else lb)"
  by pat_completeness auto
termination
  by (relation "measure (\<lambda>(i, initialServers, lb). nat (initialServers - i))") auto

text \<open>\<^verbatim>\<open>LoadBalancer::LoadBalancer(initialServers, maxServerCount, minServerCount,
  threshold)\<close>; the member \<^verbatim>\<open>requestQueue\<close> is default-constructed.\<close>

definition LoadBalancer_new :: "int \<Rightarrow> int \<Rightarrow> int \<Rightarrow> double \<Rightarrow> LoadBalancer" where
  "LoadBalancer_new initialServers maxServerCount minServerCount threshold =
     addInitialServers 0 initialServers
       \<lparr>servers = [], requestQueue = RequestQueue_default, nextServerIndex = 0,
        totalRequestsProcessed = 0, totalProcessingTime = 0,
        maxServers = maxServerCount, minServers = minServerCount,
        loadThreshold = threshold\<rparr>"

text \<open>\<^verbatim>\<open>LoadBalancer::LoadBalancer()\<close>\<close>

definition LoadBalancer_default :: LoadBalancer where
  "LoadBalancer_default =
     snd (addServer
       \<lparr>servers = [], requestQueue = RequestQueue_default, nextServerIndex = 0,
        totalRequestsProcessed = 0, totalProcessingTime = 0,
        maxServers = 20, minServers = 1, loadThreshold = d_literal 0.8\<rparr>)"

text \<open>\<^verbatim>\<open>LoadBalancer::addRequest\<close>\<close>

definition LoadBalancer_addRequest :: "Request \<Rightarrow> LoadBalancer \<Rightarrow> bool \<times> LoadBalancer" where
  "LoadBalancer_addRequest request lb =
     (case RequestQueue_addRequest request (requestQueue lb) of
        (ok, q') \<Rightarrow> (ok, lb\<lparr>requestQueue := q'\<rparr>))"

definition blockIP :: "string \<Rightarrow> LoadBalancer \<Rightarrow> LoadBalancer" where
  "blockIP ip lb = lb\<lparr>requestQueue := RequestQueue_blockIP ip (requestQueue lb)\<rparr>"

definition unblockIP :: "string \<Rightarrow> LoadBalancer \<Rightarrow> LoadBalancer" where
  "unblockIP ip lb = lb\<lparr>requestQueue := RequestQueue_unblockIP ip (requestQueue lb)\<rparr>"

definition getQueueSize :: "LoadBalancer \<Rightarrow> int" where
  "getQueueSize lb = RequestQueue_getSize (requestQueue lb)"

text \<open>
  The inner \<^verbatim>\<open>for (size_t i = 0; i < servers.size(); ++i)\<close> loop of
  \<^verbatim>\<open>LoadBalancer::distributeRequests\<close>, from iteration \<open>i\<close> on. The result is the
  flag \<^verbatim>\<open>requestAssigned\<close> and the load balancer when the loop is left. A request
  that was taken from the queue and then refused by the server is gone, and the scan goes
  on, as in the source.
\<close>

function scanServers :: "LoadBalancer \<Rightarrow> nat \<Rightarrow> nat \<Rightarrow> bool \<times> LoadBalancer" where
  "scanServers lb serverIndex i =
     (if i < length (servers lb) then
        (let currentIndex = (serverIndex + i) mod length (servers lb) in
         if canAcceptRequest (servers lb ! currentIndex) then
           (let taken = getNextRequest (requestQueue lb);
                added = WebServer_addRequest (fst taken) (servers lb ! currentIndex)
            in if fst added then
                 (True,
                  lb\<lparr>requestQueue := snd taken,
                     servers := (servers lb)[currentIndex := snd added],
                     nextServerIndex := (currentIndex + 1) mod length (servers lb)\<rparr>)
               else scanServers (lb\<lparr>requestQueue := snd taken\<rparr>) serverIndex (i + 1))
         else scanServers lb serverIndex (i + 1))
      else (False, lb))"
  by pat_completeness auto
termination
  by (relation "measure (\<lambda>(lb, serverIndex, i). length (servers lb) - i)") auto

text \<open>The \<^verbatim>\<open>while (!requestQueue.isEmpty() && attempts < maxAttempts)\<close> loop.\<close>

function distributeLoop :: "LoadBalancer \<Rightarrow> int \<Rightarrow> int \<Rightarrow> LoadBalancer" where
  "distributeLoop lb attempts maxAttempts =
     (if \<not> RequestQueue_isEmpty (requestQueue lb) \<and> attempts < maxAttempts then
        (let scanned = scanServers lb (nextServerIndex lb) 0 in
         if \<not> fst scanned then snd scanned
         else distributeLoop (snd scanned) (attempts + 1) maxAttempts)
      else lb)"
  by pat_completeness auto
termination
  by (relation "measure (\<lambda>(lb, attempts, maxAttempts). nat (maxAttempts - attempts))") auto

text \<open>\<^verbatim>\<open>LoadBalancer::distributeRequests\<close>\<close>

definition distributeRequests :: "LoadBalancer \<Rightarrow> LoadBalancer" where
  "distributeRequests lb =
     (if RequestQueue_isEmpty (requestQueue lb) then lb
      else distributeLoop lb 0 (int (length (servers lb)) * 2))"

text \<open>
  \<^verbatim>\<open>LoadBalancer::getSystemUtilization\<close>: the loop accumulates
  \<^verbatim>\<open>totalUtilization\<close> and \<^verbatim>\<open>activeServers\<close> over the servers.
\<close>

fun utilizationLoop :: "WebServer list \<Rightarrow> double \<times> int \<Rightarrow> double \<times> int" where
  "utilizationLoop [] (totalUtilization, activeServers) = (totalUtilization, activeServers)"
| "utilizationLoop (server # rest) (totalUtilization, activeServers) =
     (if isActive server then
        utilizationLoop rest
          (d_add totalUtilization (WebServer_getUtilization server), activeServers + 1)
      else utilizationLoop rest (totalUtilization, activeServers))"

definition getSystemUtilization :: "LoadBalancer \<Rightarrow> double" where
  "getSystemUtilization lb =
     (if servers lb = [] then Finite 0
      else (case utilizationLoop (servers lb) (Finite 0, 0) of
              (totalUtilization, activeServers) \<Rightarrow>
                if activeServers > 0 then d_div totalUtilization (d_of_int activeServers)
                else Finite 0))"

text \<open>
  \<^verbatim>\<open>LoadBalancer::checkLoadBalancing\<close>. \<^verbatim>\<open>avgUtilization\<close> and
  \<^verbatim>\<open>queueSize\<close> are read once; the second \<^verbatim>\<open>if\<close> reads
  \<^verbatim>\<open>servers.size()\<close> again, after the first one has run. The comparisons are those
  of \<^verbatim>\<open>double\<close>: \<^verbatim>\<open>avgUtilization > loadThreshold\<close> is
  \<open>d_less loadThreshold avgUtilization\<close>, and the bound of the second guard is the rounded
  product \<^verbatim>\<open>loadThreshold * 0.05\<close>.
\<close>

definition checkLoadBalancing :: "LoadBalancer \<Rightarrow> LoadBalancer option" where
  "checkLoadBalancing lb =
     (if servers lb = [] then Some lb
      else
        (let avgUtilization = d_div (getSystemUtilization lb) (d_literal 100);
             queueSize = getQueueSize lb;
             lb1 = (if (d_less (loadThreshold lb) avgUtilization \<or> queueSize > 10)
                       \<and> int (length (servers lb)) < maxServers lb
                    then snd (addServer lb) else lb)
         in if d_less avgUtilization (d_mul (loadThreshold lb1) (d_literal 0.05))
                 \<and> queueSize = 0
                 \<and> int (length (servers lb1)) > minServers lb1 + 3
            then map_option snd (removeServer lb1) else Some lb1))"

text \<open>
  The \<^verbatim>\<open>for (auto& server : servers)\<close> loop of \<^verbatim>\<open>LoadBalancer::processCycle\<close>;
  the integer is the running \<^verbatim>\<open>totalCompleted\<close>.
\<close>

fun processServers :: "WebServer list \<Rightarrow> int \<Rightarrow> int \<times> WebServer list" where
  "processServers [] totalCompleted = (totalCompleted, [])"
| "processServers (server # rest) totalCompleted =
     (if isActive server then
        (let done = WebServer_processCycle server;
             others = processServers rest (totalCompleted + fst done)
         in (fst others, snd done # snd others))
      else
        (let others = processServers rest totalCompleted
         in (fst others, server # snd others)))"

text \<open>\<^verbatim>\<open>LoadBalancer::processCycle\<close>\<close>

definition LoadBalancer_processCycle :: "LoadBalancer \<Rightarrow> (int \<times> LoadBalancer) option" where
  "LoadBalancer_processCycle lb =
     (let processed = processServers (servers lb) 0;
          totalCompleted = fst processed;
          lb1 = lb\<lparr>servers := snd processed\<rparr>;
          lb2 = distributeRequests lb1
      in case checkLoadBalancing lb2 of
           None \<Rightarrow> None
         | Some lb3 \<Rightarrow>
             Some (totalCompleted,
                   lb3\<lparr>totalRequestsProcessed := totalRequestsProcessed lb3 + totalCompleted\<rparr>))"

definition getTotalRequestsProcessed :: "LoadBalancer \<Rightarrow> int" where
  "getTotalRequestsProcessed lb = totalRequestsProcessed lb"

text \<open>\<^verbatim>\<open>LoadBalancer::getAverageProcessingTime\<close>\<close>

definition getAverageProcessingTime :: "LoadBalancer \<Rightarrow> real" where
  "getAverageProcessingTime lb =
     (if totalRequestsProcessed lb = 0 then 0
      else real_of_int (totalProcessingTime lb) / real_of_int (totalRequestsProcessed lb))"


section \<open>Runs of the public interface\<close>

text \<open>
  The state-changing public member functions of \<^verbatim>\<open>LoadBalancer\<close>, as a datatype of
  calls, and the state after a sequence of calls; \<open>None\<close> is the undefined behaviour of
  \<^verbatim>\<open>removeServer\<close> on an empty pool. Every state a caller can observe is
  \<open>run lb0 ops\<close> for a constructed \<open>lb0\<close>. No member function hands out a server, so
  \<^verbatim>\<open>setIsActive\<close> cannot be called on a server of a load balancer.
\<close>

datatype operation =
    AddServer
  | RemoveServer
  | AddRequest Request
  | ProcessCycle
  | DistributeRequests
  | CheckLoadBalancing
  | BlockIP string
  | UnblockIP string

fun apply_operation :: "LoadBalancer \<Rightarrow> operation \<Rightarrow> LoadBalancer option" where
  "apply_operation lb AddServer = Some (snd (addServer lb))"
| "apply_operation lb RemoveServer = map_option snd (removeServer lb)"
| "apply_operation lb (AddRequest request) = Some (snd (LoadBalancer_addRequest request lb))"
| "apply_operation lb ProcessCycle = map_option snd (LoadBalancer_processCycle lb)"
| "apply_operation lb DistributeRequests = Some (distributeRequests lb)"
| "apply_operation lb CheckLoadBalancing = checkLoadBalancing lb"
| "apply_operation lb (BlockIP ip) = Some (blockIP ip lb)"
| "apply_operation lb (UnblockIP ip) = Some (unblockIP ip lb)"

fun run :: "LoadBalancer \<Rightarrow> operation list \<Rightarrow> LoadBalancer option" where
  "run lb [] = Some lb"
| "run lb (op # ops) =
     (case apply_operation lb op of None \<Rightarrow> None | Some lb' \<Rightarrow> run lb' ops)"

text \<open>The server after \<open>k\<close> calls of \<^verbatim>\<open>WebServer::processCycle\<close>.\<close>

primrec afterCycles :: "nat \<Rightarrow> WebServer \<Rightarrow> WebServer" where
  "afterCycles 0 w = w"
| "afterCycles (Suc k) w = snd (WebServer_processCycle (afterCycles k w))"

section \<open>Auxiliary notions for the proofs\<close>

text \<open>The negation of a \<^verbatim>\<open>double\<close>.\<close>

fun d_minus :: "double \<Rightarrow> double" where
  "d_minus (Finite a) = Finite (- a)"
| "d_minus PlusInfinity = MinusInfinity"
| "d_minus MinusInfinity = PlusInfinity"
| "d_minus NaN = NaN"

text \<open>A \<^verbatim>\<open>double\<close> that is not below zero: a NaN, the positive infinity, or a finite
  value from 0 on (and below \<open>2\<close> to the 1024, as every finite result of an operation is).\<close>

fun not_negative :: "double \<Rightarrow> bool" where
  "not_negative (Finite a) = (0 \<le> a \<and> a < pow2 1024)"
| "not_negative PlusInfinity = True"
| "not_negative MinusInfinity = False"
| "not_negative NaN = True"

text \<open>The fields of the load balancer that dispatching and scaling never write.\<close>

definition same_settings :: "LoadBalancer \<Rightarrow> LoadBalancer \<Rightarrow> bool" where
  "same_settings lb lb' =
     (maxServers lb' = maxServers lb \<and> minServers lb' = minServers lb
      \<and> loadThreshold lb' = loadThreshold lb
      \<and> totalProcessingTime lb' = totalProcessingTime lb
      \<and> maxSize (requestQueue lb') = maxSize (requestQueue lb)
      \<and> blockedIPs (requestQueue lb') = blockedIPs (requestQueue lb))"

text \<open>The state written by the successful branch of the scan in
  \<^verbatim>\<open>distributeRequests\<close>, at server \<open>currentIndex\<close>.\<close>

definition placeRequest :: "LoadBalancer \<Rightarrow> nat \<Rightarrow> LoadBalancer" where
  "placeRequest lb currentIndex =
     lb\<lparr>requestQueue := snd (getNextRequest (requestQueue lb)),
        servers := (servers lb)
          [currentIndex := snd (WebServer_addRequest (fst (getNextRequest (requestQueue lb)))
                                  (servers lb ! currentIndex))],
        nextServerIndex := (currentIndex + 1) mod length (servers lb)\<rparr>"

text \<open>
  What holds of every server of a load balancer: the load counts the queued requests, the
  server is active (nothing in \<^verbatim>\<open>LoadBalancer\<close> calls \<^verbatim>\<open>setIsActive\<close>)
  and its capacity is the 5 that \<^verbatim>\<open>addServer\<close> passes.
\<close>

definition server_ok :: "WebServer \<Rightarrow> bool" where
  "server_ok w =
     (currentLoad w = int (length (ws_requestQueue w)) \<and> isActive w \<and> maxCapacity w = 5)"

definition servers_ok :: "LoadBalancer \<Rightarrow> bool" where
  "servers_ok lb = list_all server_ok (servers lb)"


declare scanServers.simps [simp del]
declare distributeLoop.simps [simp del]
declare addInitialServers.simps [simp del]

text \<open>
  The mean utilization of the active servers in the words of the specification, written
  out on the loads and capacities: the utilization of a server is its load over its
  capacity as a percentage (0 when the capacity is 0), and the mean is the sum of the
  utilizations of the active servers, taken in the order of the pool, over their number
  (0 when no server is active). The arithmetic is that of \<^verbatim>\<open>double\<close>.
\<close>

definition load_over_capacity_percent :: "WebServer \<Rightarrow> double" where
  "load_over_capacity_percent w =
     (if maxCapacity w = 0 then Finite 0
      else d_mul (d_div (d_of_int (currentLoad w)) (d_of_int (maxCapacity w)))
             (d_literal 100))"

definition mean_utilization_of_active :: "WebServer list \<Rightarrow> double" where
  "mean_utilization_of_active ss =
     (if filter isActive ss = [] then Finite 0
      else d_div (foldl d_add (Finite 0) (map load_over_capacity_percent (filter isActive ss)))
             (d_of_int (int (length (filter isActive ss)))))"

text \<open>
  The two scaling conditions in the words of the specification, both read on the state in
  which \<^verbatim>\<open>checkLoadBalancing\<close> is entered. The mean utilization is a percentage; over
  100 it is a fraction like the threshold.
\<close>

definition scale_up_condition :: "LoadBalancer \<Rightarrow> bool" where
  "scale_up_condition lb =
     ((d_less (loadThreshold lb)
         (d_div (mean_utilization_of_active (servers lb)) (d_literal 100))
       \<or> getQueueSize lb > 10)
      \<and> int (length (servers lb)) < maxServers lb)"

definition scale_down_condition :: "LoadBalancer \<Rightarrow> bool" where
  "scale_down_condition lb =
     (d_less (d_div (mean_utilization_of_active (servers lb)) (d_literal 100))
        (d_mul (loadThreshold lb) (d_literal 0.05))
      \<and> getQueueSize lb = 0
      \<and> int (length (servers lb)) > minServers lb + 3)"

text \<open>The rotation cursor next to the number of servers.\<close>

definition cursor_and_pool_size :: "LoadBalancer \<Rightarrow> nat \<times> nat" where
  "cursor_and_pool_size lb = (nextServerIndex lb, length (servers lb))"

text \<open>The cursor property in the words of the specification: an index into a non-empty
  pool.\<close>

definition cursor_valid :: "LoadBalancer \<Rightarrow> bool" where
  "cursor_valid lb = (servers lb \<noteq> [] \<longrightarrow> nextServerIndex lb < length (servers lb))"

text \<open>
  Whether the pool has become smaller since a request was last placed on a server. The
  flag is followed along a sequence of calls. A call that leaves fewer servers than it
  found sets it; \<^verbatim>\<open>processCycle\<close> scales after it has distributed, so a placement
  in the same call does not make up for that. Otherwise a call that leaves the admission
  queue shorter than it found it clears the flag: only \<^verbatim>\<open>distributeRequests\<close> takes
  requests out of that queue, where it hands them to a server and writes the cursor.
\<close>

fun shrunk_since_placement :: "bool \<Rightarrow> LoadBalancer \<Rightarrow> operation list \<Rightarrow> bool" where
  "shrunk_since_placement shrunk lb [] = shrunk"
| "shrunk_since_placement shrunk lb (op # ops) =
     (case apply_operation lb op of
        None \<Rightarrow> shrunk
      | Some lb' \<Rightarrow>
          shrunk_since_placement
            (if length (servers lb') < length (servers lb) then True
             else if length (rq_requestQueue (requestQueue lb'))
                       < length (rq_requestQueue (requestQueue lb))
                  then False
             else shrunk)
            lb' ops)"

text \<open>The cursor is 0 or an index into the pool.\<close>

definition cursor_in_range :: "LoadBalancer \<Rightarrow> bool" where
  "cursor_in_range lb = (nextServerIndex lb = 0 \<or> nextServerIndex lb < length (servers lb))"

text \<open>An idle server with room: active, no load, nothing queued, capacity at least 1.\<close>

definition idle_server :: "WebServer \<Rightarrow> bool" where
  "idle_server w =
     (isActive w \<and> currentLoad w = 0 \<and> ws_requestQueue w = [] \<and> 1 \<le> maxCapacity w)"

text \<open>
  The state after the first \<open>k\<close> queued requests of \<open>lb\<close> have been placed in rotation
  order: request \<open>j\<close> sits alone on the server \<open>j\<close> places after the cursor of \<open>lb\<close>, the
  other servers are as in \<open>lb\<close>, the queue has lost its first \<open>k\<close> requests and the cursor
  has moved \<open>k\<close> places.
\<close>

definition placed_in_rotation :: "LoadBalancer \<Rightarrow> nat \<Rightarrow> LoadBalancer \<Rightarrow> bool" where
  "placed_in_rotation lb k lb' =
     (length (servers lb') = length (servers lb)
      \<and> rq_requestQueue (requestQueue lb') = drop k (rq_requestQueue (requestQueue lb))
      \<and> nextServerIndex lb' mod length (servers lb)
          = (nextServerIndex lb + k) mod length (servers lb)
      \<and> (\<forall>j<length (servers lb).
            servers lb' ! ((nextServerIndex lb + j) mod length (servers lb)) =
              (if j < k
               then (servers lb ! ((nextServerIndex lb + j) mod length (servers lb)))
                       \<lparr>ws_requestQueue := [rq_requestQueue (requestQueue lb) ! j],
                        currentLoad := 1\<rparr>
               else servers lb ! ((nextServerIndex lb + j) mod length (servers lb)))))"

text \<open>An example state: three idle servers, three queued requests, and the cursor at 7,
  beyond the pool.\<close>

definition three_idle_three_queued :: LoadBalancer where
  "three_idle_three_queued =
     (snd (LoadBalancer_addRequest (Request_new ''1.2.3.6'' ''GET'' 5 3 3)
       (snd (LoadBalancer_addRequest (Request_new ''1.2.3.5'' ''GET'' 5 3 2)
         (snd (LoadBalancer_addRequest (Request_new ''1.2.3.4'' ''GET'' 5 3 1)
           (LoadBalancer_new 3 10 1 (d_literal 0.8))))))))
     \<lparr>nextServerIndex := 7\<rparr>"

section \<open>Binary64 arithmetic\<close>

lemma pow2_positive [simp]: "0 < pow2 k"
  by (simp add: pow2_def)

lemma pow2_add: "pow2 (j + k) = pow2 j * pow2 k"
  by (simp add: pow2_def power_int_add)

lemma pow2_diff: "pow2 (j - k) = pow2 j / pow2 k"
  by (simp add: pow2_def power_int_diff)

lemma pow2_mono: "j \<le> k \<Longrightarrow> pow2 j \<le> pow2 k"
  by (simp add: pow2_def power_int_increasing)

lemma pow2_strict_mono: "j < k \<Longrightarrow> pow2 j < pow2 k"
  by (simp add: pow2_def power_int_strict_increasing)

lemma pow2_Suc: "pow2 (k + 1) = 2 * pow2 k"
  by (simp add: pow2_def power_int_add)

lemma pow2_nat: "0 \<le> k \<Longrightarrow> pow2 k = 2 ^ nat k"
  by (simp add: pow2_def power_int_def)

text \<open>Powers of two by repeated squaring, for evaluation.\<close>

lemma pow2_code [code]:
  "pow2 k =
     (if k < 0 then inverse (pow2 (- k))
      else if k = 0 then 1
      else (let h = pow2 (k div 2) in if even k then h * h else 2 * h * h))"
proof -
  have neg: "pow2 k = inverse (pow2 (- k))"
    by (simp add: pow2_def power_int_minus)
  have split: "pow2 k = pow2 (k div 2) * pow2 (k div 2) * pow2 (k mod 2)"
  proof -
    have "pow2 (k div 2 + k div 2 + k mod 2)
        = pow2 (k div 2) * pow2 (k div 2) * pow2 (k mod 2)"
      by (simp only: pow2_add)
    moreover have "k div 2 + k div 2 + k mod 2 = k" by presburger
    ultimately show ?thesis by simp
  qed
  have parity: "pow2 (k mod 2) = (if even k then 1 else 2)"
    by (auto simp add: pow2_def even_iff_mod_2_eq_zero not_mod_2_eq_0_eq_1)
  show ?thesis
    using neg split parity by (auto simp add: Let_def pow2_def)
qed

text \<open>The exponent is the right one: a positive \<open>a\<close> lies between \<open>2\<close> to its exponent and
  the next power of two.\<close>

lemma bitlen_pow2_bounds:
  assumes "0 < n"
  shows "pow2 (bitlen n - 1) \<le> of_int n" and "of_int n < pow2 (bitlen n)"
proof -
  have pos: "1 \<le> bitlen n" using assms by (simp add: bitlen_alt_def)
  have "(2::int) ^ nat (bitlen n - 1) \<le> n" and "n < 2 ^ nat (bitlen n)"
    using bitlen_bounds [OF assms] by simp_all
  then have "(of_int ((2::int) ^ nat (bitlen n - 1)) :: rat) \<le> of_int n"
    and "(of_int n :: rat) < of_int (2 ^ nat (bitlen n))"
    by (simp_all only: of_int_le_iff of_int_less_iff)
  then show "pow2 (bitlen n - 1) \<le> of_int n" and "of_int n < pow2 (bitlen n)"
    using pos by (simp_all add: pow2_nat)
qed

lemma binary_exponent_correct:
  assumes "0 < a"
  shows "pow2 (binary_exponent a) \<le> a" and "a < pow2 (binary_exponent a + 1)"
proof -
  obtain p q where pq: "quotient_of a = (p, q)" by (cases "quotient_of a")
  have q: "0 < q" using pq by (rule quotient_of_denom_pos)
  have a: "a = of_int p / of_int q" using pq by (rule quotient_of_div)
  have p: "0 < p" using assms q a by (simp add: zero_less_divide_iff)
  define est where "est = bitlen p - bitlen q"
  note pb = bitlen_pow2_bounds [OF p] and qb = bitlen_pow2_bounds [OF q]
  have qpos: "(0::rat) < of_int q" using q by simp
  have "a < pow2 (bitlen p) / pow2 (bitlen q - 1)"
    unfolding a using pb(2) qb(1) p
    by (intro frac_less) simp_all
  then have upper: "a < pow2 (est + 1)"
    by (simp add: est_def pow2_diff [symmetric] algebra_simps)
  have "pow2 (bitlen p - 1) / pow2 (bitlen q) < a"
    unfolding a using pb(1) qb(2) qpos
    by (intro frac_less2) simp_all
  then have lower: "pow2 (est - 1) < a"
    by (simp add: est_def pow2_diff [symmetric] algebra_simps)
  have e: "binary_exponent a = (if pow2 est \<le> a then est else est - 1)"
    by (simp add: binary_exponent_def pq est_def Let_def)
  show "pow2 (binary_exponent a) \<le> a" using lower by (simp add: e less_imp_le)
  show "a < pow2 (binary_exponent a + 1)" using upper by (simp add: e)
qed


text \<open>Rounding to the nearest integer: the result is within one half, integers are kept,
  and the order is kept.\<close>

lemma round_half_even_cases:
  "(round_half_even m = \<lfloor>m\<rfloor> \<and> m - of_int \<lfloor>m\<rfloor> \<le> 1 / 2)
   \<or> (round_half_even m = \<lfloor>m\<rfloor> + 1 \<and> 1 / 2 \<le> m - of_int \<lfloor>m\<rfloor>)"
  by (auto simp add: round_half_even_def Let_def)

lemma round_half_even_near: "\<bar>of_int (round_half_even m) - m\<bar> \<le> 1 / 2"
proof -
  have lower: "of_int \<lfloor>m\<rfloor> \<le> m" by (rule of_int_floor_le)
  have upper: "m < of_int \<lfloor>m\<rfloor> + 1" by linarith
  show ?thesis
  proof (rule disjE [OF round_half_even_cases [of m]])
    assume "round_half_even m = \<lfloor>m\<rfloor> \<and> m - of_int \<lfloor>m\<rfloor> \<le> 1 / 2"
    then show ?thesis using lower by simp
  next
    assume up: "round_half_even m = \<lfloor>m\<rfloor> + 1 \<and> 1 / 2 \<le> m - of_int \<lfloor>m\<rfloor>"
    then have "(of_int (round_half_even m) :: rat) = of_int \<lfloor>m\<rfloor> + 1" by simp
    then show ?thesis using up upper by linarith
  qed
qed

lemma round_half_even_of_int [simp]: "round_half_even (of_int n) = n"
  by (simp add: round_half_even_def)

lemma round_half_even_mono:
  assumes "m \<le> m'"
  shows "round_half_even m \<le> round_half_even m'"
proof (cases "\<lfloor>m\<rfloor> = \<lfloor>m'\<rfloor>")
  case True
  then show ?thesis
    using assms by (auto simp add: round_half_even_def Let_def)
next
  case False
  then have "\<lfloor>m\<rfloor> < \<lfloor>m'\<rfloor>" using floor_mono [OF assms] by simp
  moreover have "round_half_even m \<le> \<lfloor>m\<rfloor> + 1"
    using round_half_even_cases [of m] by auto
  moreover have "\<lfloor>m'\<rfloor> \<le> round_half_even m'"
    using round_half_even_cases [of m'] by auto
  ultimately show ?thesis by linarith
qed

lemma round_half_even_bounds:
  assumes "0 \<le> m"
  shows "0 \<le> round_half_even m" and "of_int (round_half_even m) \<le> 2 * m"
proof -
  let ?f = "\<lfloor>m\<rfloor>"
  have f0: "0 \<le> ?f" using assms by simp
  then have f0r: "(0::rat) \<le> of_int ?f" by simp
  have fm: "of_int ?f \<le> m" by (rule of_int_floor_le)
  note cases = round_half_even_cases [of m]
  show "0 \<le> round_half_even m"
    using f0 cases by auto
  show "of_int (round_half_even m) \<le> 2 * m"
  proof (rule disjE [OF cases])
    assume "round_half_even m = ?f \<and> m - of_int ?f \<le> 1 / 2"
    then show ?thesis using fm assms by linarith
  next
    assume up: "round_half_even m = ?f + 1 \<and> 1 / 2 \<le> m - of_int ?f"
    then have "(of_int (round_half_even m) :: rat) = of_int ?f + 1" by simp
    then show ?thesis using up f0r by linarith
  qed
qed

text \<open>
  The pieces of \<open>round_to_double\<close> at a positive magnitude \<open>a\<close>: the spacing \<open>spacing a\<close> of
  the grid there and the number \<open>significand a\<close> of spacings of the rounded value. The
  significand has at most 53 bits, and exactly 53 at a normal magnitude.
\<close>

lemma significand_bounds:
  assumes "0 < a"
  defines "e \<equiv> max (binary_exponent a) (- 1022)"
  shows "round_half_even (a / pow2 (e - 52)) \<le> 2 ^ 53"
    and "- 1022 \<le> binary_exponent a \<Longrightarrow> 2 ^ 52 \<le> round_half_even (a / pow2 (e - 52))"
proof -
  have split: "pow2 (e + 1) = 2 ^ 53 * pow2 (e - 52)"
  proof -
    have "pow2 (53 + (e - 52)) = pow2 53 * pow2 (e - 52)" by (rule pow2_add)
    moreover have "53 + (e - 52) = e + 1" by simp
    ultimately show ?thesis by (simp add: pow2_nat)
  qed
  have "a < pow2 (binary_exponent a + 1)" using assms(1) by (rule binary_exponent_correct)
  also have "\<dots> \<le> pow2 (e + 1)" by (rule pow2_mono) (simp add: e_def)
  finally have "a / pow2 (e - 52) < 2 ^ 53"
    by (simp add: split pos_divide_less_eq)
  then have "round_half_even (a / pow2 (e - 52)) \<le> round_half_even (of_int (2 ^ 53))"
    by (intro round_half_even_mono) simp
  then show "round_half_even (a / pow2 (e - 52)) \<le> 2 ^ 53"
    by (simp only: round_half_even_of_int)
  show "2 ^ 52 \<le> round_half_even (a / pow2 (e - 52))" if normal: "- 1022 \<le> binary_exponent a"
  proof -
    have e: "e = binary_exponent a" using normal by (simp add: e_def)
    have split2: "pow2 e = 2 ^ 52 * pow2 (e - 52)"
    proof -
      have "pow2 (52 + (e - 52)) = pow2 52 * pow2 (e - 52)" by (rule pow2_add)
      moreover have "52 + (e - 52) = e" by simp
      ultimately show ?thesis by (simp add: pow2_nat)
    qed
    have "pow2 e \<le> a" unfolding e using assms(1) by (rule binary_exponent_correct)
    then have "2 ^ 52 \<le> a / pow2 (e - 52)"
      by (simp add: split2 pos_le_divide_eq)
    then have "round_half_even (of_int (2 ^ 52)) \<le> round_half_even (a / pow2 (e - 52))"
      by (intro round_half_even_mono) simp
    then show ?thesis by (simp only: round_half_even_of_int)
  qed
qed


text \<open>\<open>round_to_double\<close> at a positive and at a negative argument, unfolded.\<close>

lemma round_to_double_positive_unfold:
  assumes "0 < x"
  shows "round_to_double x =
     (if pow2 1024
           \<le> of_int (round_half_even (x / pow2 (max (binary_exponent x) (- 1022) - 52)))
               * pow2 (max (binary_exponent x) (- 1022) - 52)
      then PlusInfinity
      else Finite (of_int (round_half_even (x / pow2 (max (binary_exponent x) (- 1022) - 52)))
                     * pow2 (max (binary_exponent x) (- 1022) - 52)))"
  using assms by (simp add: round_to_double_def Let_def)

lemma round_to_double_negative_unfold:
  assumes "x < 0"
  shows "round_to_double x =
     (if pow2 1024
           \<le> of_int (round_half_even (- x / pow2 (max (binary_exponent (- x)) (- 1022) - 52)))
               * pow2 (max (binary_exponent (- x)) (- 1022) - 52)
      then MinusInfinity
      else Finite (- (of_int (round_half_even
                                (- x / pow2 (max (binary_exponent (- x)) (- 1022) - 52)))
                       * pow2 (max (binary_exponent (- x)) (- 1022) - 52))))"
  using assms by (simp add: round_to_double_def Let_def abs_if)

text \<open>Rounding is symmetric.\<close>

lemma round_to_double_minus: "round_to_double (- x) = d_minus (round_to_double x)"
proof -
  consider "x = 0" | "0 < x" | "x < 0" by linarith
  then show ?thesis
  proof cases
    case 1
    then show ?thesis by (simp add: round_to_double_def)
  next
    case 2
    then have "- x < 0" by simp
    then show ?thesis
      by (simp add: round_to_double_negative_unfold round_to_double_positive_unfold [OF 2])
  next
    case 3
    then have "0 < - x" by simp
    then show ?thesis
      by (simp add: round_to_double_positive_unfold round_to_double_negative_unfold [OF 3])
  qed
qed


text \<open>
  The result at a positive argument: a finite value that is not negative, at most twice
  the argument and below \<open>2\<close> to the 1024, or the infinity, and this only from \<open>2\<close> to the
  1023 on.
\<close>

lemma round_to_double_positive:
  assumes "0 < x"
  shows "(\<exists>y. round_to_double x = Finite y \<and> 0 \<le> y \<and> y \<le> 2 * x \<and> y < pow2 1024)
       \<or> (round_to_double x = PlusInfinity \<and> pow2 1023 \<le> x)"
proof -
  define q where "q = pow2 (max (binary_exponent x) (- 1022) - 52)"
  define n where "n = round_half_even (x / q)"
  have q: "0 < q" by (simp add: q_def)
  have m: "0 \<le> x / q" using q assms by simp
  have n0: "0 \<le> n" and n2: "of_int n \<le> 2 * (x / q)"
    using round_half_even_bounds [OF m] by (simp_all add: n_def)
  have y0: "0 \<le> of_int n * q" using n0 q by simp
  have "of_int n * q \<le> 2 * (x / q) * q"
    using n2 q by (simp only: mult_right_mono less_imp_le)
  then have y2: "of_int n * q \<le> 2 * x" using q by simp
  have unfold: "round_to_double x =
      (if pow2 1024 \<le> of_int n * q then PlusInfinity else Finite (of_int n * q))"
    using round_to_double_positive_unfold [OF assms] by (simp add: q_def n_def)
  show ?thesis
  proof (cases "pow2 1024 \<le> of_int n * q")
    case True
    then have "pow2 1024 \<le> 2 * x" using y2 by linarith
    moreover have "pow2 1024 = 2 * pow2 1023" using pow2_Suc [of 1023] by simp
    ultimately have "pow2 1023 \<le> x" by linarith
    then show ?thesis using True unfold by simp
  next
    case False
    then show ?thesis using unfold y0 y2 by simp
  qed
qed

lemma round_to_double_negative:
  assumes "x < 0"
  shows "(\<exists>y. round_to_double x = Finite y \<and> y \<le> 0 \<and> 2 * x \<le> y \<and> - pow2 1024 < y)
       \<or> (round_to_double x = MinusInfinity \<and> x \<le> - pow2 1023)"
proof -
  have "0 < - x" using assms by simp
  from round_to_double_positive [OF this] show ?thesis
  proof
    assume "\<exists>y. round_to_double (- x) = Finite y \<and> 0 \<le> y \<and> y \<le> 2 * (- x) \<and> y < pow2 1024"
    then obtain y where y: "round_to_double (- x) = Finite y"
      and bounds: "0 \<le> y" "y \<le> 2 * (- x)" "y < pow2 1024"
      by blast
    have "round_to_double x = d_minus (round_to_double (- x))"
      using round_to_double_minus [of "- x"] by simp
    then have "round_to_double x = Finite (- y)" by (simp add: y)
    then show ?thesis using bounds by simp
  next
    assume inf: "round_to_double (- x) = PlusInfinity \<and> pow2 1023 \<le> - x"
    have "round_to_double x = d_minus (round_to_double (- x))"
      using round_to_double_minus [of "- x"] by simp
    then show ?thesis using inf by simp
  qed
qed

text \<open>
  The finite result is a point of the grid at the argument, at most half a spacing away
  from it.
\<close>

lemma round_to_double_nearest:
  assumes "0 < x" and "round_to_double x = Finite y"
  defines "spacing \<equiv> pow2 (max (binary_exponent x) (- 1022) - 52)"
  shows "\<bar>y - x\<bar> \<le> spacing / 2"
    and "\<exists>n. 0 \<le> n \<and> n \<le> 2 ^ 53 \<and> y = of_int n * spacing"
proof -
  define n where "n = round_half_even (x / spacing)"
  have q: "0 < spacing" by (simp add: spacing_def)
  have y: "y = of_int n * spacing"
    using round_to_double_positive_unfold [OF assms(1)] assms(2)
    by (simp add: spacing_def n_def split: if_splits)
  have "\<bar>of_int n - x / spacing\<bar> \<le> 1 / 2"
    unfolding n_def by (rule round_half_even_near)
  then have "\<bar>of_int n - x / spacing\<bar> * spacing \<le> 1 / 2 * spacing"
    using q by (simp only: mult_right_mono less_imp_le)
  moreover have "\<bar>of_int n - x / spacing\<bar> * spacing = \<bar>of_int n * spacing - x\<bar>"
  proof -
    have "\<bar>of_int n - x / spacing\<bar> * spacing = \<bar>(of_int n - x / spacing) * spacing\<bar>"
      using q by (simp add: abs_mult)
    also have "(of_int n - x / spacing) * spacing = of_int n * spacing - x"
      using q by (simp add: algebra_simps)
    finally show ?thesis .
  qed
  ultimately show "\<bar>y - x\<bar> \<le> spacing / 2" by (simp add: y)
  have "0 \<le> x / spacing" using q assms(1) by simp
  then have "0 \<le> n" unfolding n_def by (rule round_half_even_bounds)
  moreover have "n \<le> 2 ^ 53"
    unfolding n_def spacing_def using assms(1) by (rule significand_bounds)
  ultimately show "\<exists>n. 0 \<le> n \<and> n \<le> 2 ^ 53 \<and> y = of_int n * spacing"
    using y by blast
qed

text \<open>Every point of the binary64 grid is kept: a significand of at most 53 bits times a
  power of two from \<open>2\<close> to the \<open>-1074\<close> on, below \<open>2\<close> to the 1024.\<close>

lemma round_to_double_exact_positive:
  assumes "0 < n" and "n < 2 ^ 53" and "- 1074 \<le> k" and "of_int n * pow2 k < pow2 1024"
  shows "round_to_double (of_int n * pow2 k) = Finite (of_int n * pow2 k)"
proof -
  define x where "x = of_int n * pow2 k"
  define e where "e = max (binary_exponent x) (- 1022)"
  have x: "0 < x" using assms(1) by (simp add: x_def)
  have "of_int n < (2::rat) ^ 53"
  proof -
    have "(of_int n :: rat) < of_int (2 ^ 53)" using assms(2) by (simp only: of_int_less_iff)
    then show ?thesis by simp
  qed
  then have "x < 2 ^ 53 * pow2 k" by (simp add: x_def)
  also have "\<dots> = pow2 (k + 53)" using pow2_add [of 53 k] by (simp add: pow2_nat add.commute)
  finally have "pow2 (binary_exponent x) < pow2 (k + 53)"
    using binary_exponent_correct(1) [OF x] by linarith
  then have "binary_exponent x < k + 53"
    using pow2_mono [of "k + 53" "binary_exponent x"] by (cases "binary_exponent x < k + 53") auto
  then have shift: "0 \<le> k - (e - 52)" using assms(3) by (simp add: e_def)
  have "x / pow2 (e - 52) = of_int n * pow2 (k - (e - 52))"
    by (simp add: x_def pow2_diff)
  also have "\<dots> = of_int (n * 2 ^ nat (k - (e - 52)))"
    using shift by (simp add: pow2_nat)
  finally have "round_half_even (x / pow2 (e - 52)) = n * 2 ^ nat (k - (e - 52))"
    by (simp only: round_half_even_of_int)
  then have "of_int (round_half_even (x / pow2 (e - 52))) * pow2 (e - 52)
      = of_int n * pow2 (k - (e - 52)) * pow2 (e - 52)"
    using shift by (simp add: pow2_nat)
  also have "\<dots> = x"
    using pow2_add [of "k - (e - 52)" "e - 52"] by (simp add: x_def mult.assoc)
  finally have "round_to_double x = Finite x"
    using round_to_double_positive_unfold [OF x] assms(4) by (simp add: e_def x_def)
  then show ?thesis by (simp add: x_def)
qed

lemma round_to_double_exact:
  assumes "\<bar>n\<bar> < 2 ^ 53" and "- 1074 \<le> k" and "\<bar>of_int n\<bar> * pow2 k < pow2 1024"
  shows "round_to_double (of_int n * pow2 k) = Finite (of_int n * pow2 k)"
proof -
  consider "n = 0" | "0 < n" | "n < 0" by linarith
  then show ?thesis
  proof cases
    case 1
    then show ?thesis by (simp add: round_to_double_def)
  next
    case 2
    then show ?thesis using assms by (simp add: round_to_double_exact_positive)
  next
    case 3
    then have "round_to_double (of_int (- n) * pow2 k) = Finite (of_int (- n) * pow2 k)"
      using assms by (intro round_to_double_exact_positive) simp_all
    then have "round_to_double (- (of_int n * pow2 k)) = Finite (- (of_int n * pow2 k))"
      by simp
    then show ?thesis
      by (cases "round_to_double (of_int n * pow2 k)") (simp_all add: round_to_double_minus)
  qed
qed

lemma round_to_double_of_int:
  assumes "\<bar>n\<bar> < 2 ^ 53"
  shows "round_to_double (of_int n) = Finite (of_int n)"
proof -
  have "(of_int \<bar>n\<bar> :: rat) < of_int (2 ^ 53)" using assms by (simp only: of_int_less_iff)
  also have "(of_int (2 ^ 53) :: rat) = pow2 53" by (simp add: pow2_nat)
  also have "pow2 53 \<le> pow2 1024" by (rule pow2_mono) simp
  finally have "\<bar>of_int n\<bar> * pow2 0 < pow2 1024" by (simp add: pow2_def)
  from round_to_double_exact [OF assms _ this] show ?thesis by (simp add: pow2_def)
qed


text \<open>
  \<open>round_to_double\<close> for evaluation: an integer of at most 53 bits is kept as it is, and
  the overflow test is skipped below the largest exponent.
\<close>

lemma no_overflow_below_largest_exponent:
  assumes "0 < a" and "max (binary_exponent a) (- 1022) < 1023"
  shows "\<not> pow2 1024
            \<le> of_int (round_half_even (a / pow2 (max (binary_exponent a) (- 1022) - 52)))
                * pow2 (max (binary_exponent a) (- 1022) - 52)"
proof -
  define e where "e = max (binary_exponent a) (- 1022)"
  define n where "n = round_half_even (a / pow2 (e - 52))"
  have "n \<le> 2 ^ 53" unfolding n_def e_def using assms(1) by (rule significand_bounds)
  then have "(of_int n :: rat) \<le> of_int (2 ^ 53)" by (simp only: of_int_le_iff)
  then have "of_int n * pow2 (e - 52) \<le> 2 ^ 53 * pow2 (e - 52)" by simp
  also have "\<dots> = pow2 (e + 1)"
  proof -
    have "pow2 (53 + (e - 52)) = pow2 53 * pow2 (e - 52)" by (rule pow2_add)
    moreover have "53 + (e - 52) = e + 1" by simp
    ultimately show ?thesis by (simp add: pow2_nat)
  qed
  also have "\<dots> < pow2 1024" by (rule pow2_strict_mono) (use assms(2) in \<open>simp add: e_def\<close>)
  finally show ?thesis by (simp add: n_def e_def)
qed

lemma round_to_double_code [code]:
  "round_to_double x =
     (if x = 0 then Finite 0
      else if snd (quotient_of x) = 1 \<and> \<bar>fst (quotient_of x)\<bar> < 9007199254740992
      then Finite x
      else
        (let a = \<bar>x\<bar>;
             e = max (binary_exponent a) (- 1022);
             quantum = pow2 (e - 52);
             y = of_int (round_half_even (a / quantum)) * quantum
         in if 1023 \<le> e \<and> pow2 1024 \<le> y
            then (if 0 < x then PlusInfinity else MinusInfinity)
            else Finite (if 0 < x then y else - y)))"
proof (cases "x = 0")
  case True
  then show ?thesis by (simp add: round_to_double_def)
next
  case nonzero: False
  show ?thesis
  proof (cases "snd (quotient_of x) = 1 \<and> \<bar>fst (quotient_of x)\<bar> < 9007199254740992")
    case True
    have "x = of_int (fst (quotient_of x)) / of_int (snd (quotient_of x))"
      by (rule quotient_of_div) simp
    then have x: "x = of_int (fst (quotient_of x))" using True by simp
    have "round_to_double (of_int (fst (quotient_of x))) = Finite (of_int (fst (quotient_of x)))"
      using True by (intro round_to_double_of_int) simp
    then have "round_to_double x = Finite x" using x by simp
    then show ?thesis using True nonzero by simp
  next
    case False
    have a: "0 < \<bar>x\<bar>" using nonzero by simp
    let ?e = "max (binary_exponent \<bar>x\<bar>) (- 1022)"
    let ?over = "pow2 1024 \<le> of_int (round_half_even (\<bar>x\<bar> / pow2 (?e - 52))) * pow2 (?e - 52)"
    have "\<not> 1023 \<le> ?e \<Longrightarrow> \<not> ?over"
      using no_overflow_below_largest_exponent [OF a] by (simp only: not_le)
    then have test: "(1023 \<le> ?e \<and> ?over) = ?over" by blast
    show ?thesis
      unfolding round_to_double_def Let_def test
      by (simp only: False nonzero if_False)
  qed
qed


text \<open>Values that are not below zero stay so under \<^verbatim>\<open>+\<close>, \<^verbatim>\<open>*\<close> and
  \<^verbatim>\<open>/\<close>.\<close>

lemma round_to_double_not_negative:
  assumes "0 \<le> x"
  shows "not_negative (round_to_double x)"
proof (cases "x = 0")
  case True
  then show ?thesis by (simp add: round_to_double_def)
next
  case False
  then have "0 < x" using assms by simp
  from round_to_double_positive [OF this] show ?thesis by auto
qed

lemma d_of_int_not_negative: "0 \<le> n \<Longrightarrow> not_negative (d_of_int n)"
  by (simp add: d_of_int_def round_to_double_not_negative)

lemma d_literal_not_negative: "0 \<le> r \<Longrightarrow> not_negative (d_literal r)"
  by (simp add: d_literal_def round_to_double_not_negative)

lemma d_add_not_negative:
  assumes "not_negative a" and "not_negative b"
  shows "not_negative (d_add a b)"
  using assms by (cases a; cases b) (simp_all add: round_to_double_not_negative)

lemma d_mul_not_negative:
  assumes "not_negative a" and "not_negative b"
  shows "not_negative (d_mul a b)"
  using assms by (cases a; cases b) (simp_all add: round_to_double_not_negative)

lemma d_div_not_negative:
  assumes "not_negative a" and "not_negative b"
  shows "not_negative (d_div a b)"
  using assms by (cases a; cases b) (simp_all add: round_to_double_not_negative)

text \<open>
  The two utilization guards of \<^verbatim>\<open>checkLoadBalancing\<close> exclude each other at every
  threshold, a NaN and the infinities included: a utilization \<open>u\<close> that is not below zero
  is never above \<open>t\<close> and below \<^verbatim>\<open>t * 0.05\<close>. The rounded product is at most twice
  the exact one, and twice \<^verbatim>\<open>0.05\<close> is less than 1.
\<close>

lemma d_less_never [simp]:
  "d_less PlusInfinity b = False" "d_less a MinusInfinity = False"
  "d_less NaN b = False" "d_less a NaN = False"
  by (cases b; simp) (cases a; simp)+

lemma twentieth: "d_literal 0.05 = Finite (3602879701896397 / 72057594037927936)"
  by code_simp

lemma utilization_guards_exclusive:
  assumes "not_negative u"
  shows "\<not> (d_less t u \<and> d_less u (d_mul t (d_literal 0.05)))"
proof
  let ?c = "3602879701896397 / 72057594037927936 :: rat"
  assume "d_less t u \<and> d_less u (d_mul t (d_literal 0.05))"
  then have both: "d_less t u \<and> d_less u (d_mul t (Finite ?c))" by (simp only: twentieth)
  have c: "0 < ?c" "2 * ?c \<le> 1" by simp_all
  from both obtain y where u: "u = Finite y"
    by (cases u; cases t) simp_all
  have y: "0 \<le> y" "y < pow2 1024" using assms by (simp_all add: u)
  from both u have "t = MinusInfinity \<or> (\<exists>a. t = Finite a)" by (cases t) simp_all
  then show False
  proof
    assume "t = MinusInfinity"
    then show False using both u by simp
  next
    assume "\<exists>a. t = Finite a"
    then obtain a where t: "t = Finite a" ..
    have below: "a < y" using both by (simp add: t u)
    have above: "d_less (Finite y) (round_to_double (a * ?c))"
      using both by (simp add: t u)
    consider "a * ?c = 0" | "a * ?c < 0" | "0 < a * ?c" by linarith
    then show False
    proof cases
      case 1
      then show False using above y by (simp add: round_to_double_def)
    next
      case 2
      from round_to_double_negative [OF this] above y show False by auto
    next
      case 3
      then have a: "0 < a" using c(1) by (simp add: zero_less_mult_iff)
      have small: "2 * (a * ?c) \<le> a"
      proof -
        have "a * (2 * ?c) \<le> a * 1" using a c(2) by (intro mult_left_mono) simp_all
        then show ?thesis by (simp add: mult.assoc mult.left_commute)
      qed
      from round_to_double_positive [OF 3] show False
      proof
        assume "\<exists>z. round_to_double (a * ?c) = Finite z \<and> 0 \<le> z \<and> z \<le> 2 * (a * ?c)
                  \<and> z < pow2 1024"
        then obtain z where "round_to_double (a * ?c) = Finite z" and "z \<le> 2 * (a * ?c)"
          by blast
        then show False using above small below by simp
      next
        assume "round_to_double (a * ?c) = PlusInfinity \<and> pow2 1023 \<le> a * ?c"
        then have "pow2 1023 \<le> a * ?c" ..
        moreover have "a * ?c \<le> a" using small 3 by linarith
        moreover have "pow2 1024 = 2 * pow2 1023" using pow2_Suc [of 1023] by simp
        moreover have "0 < pow2 1023" by simp
        ultimately show False using below y(2) by linarith
      qed
    qed
  qed
qed


section \<open>The worker: completion timing and the processing-time counter\<close>

lemma processCycle_single_pending:
  assumes "isActive w" and "ws_requestQueue w = [request]" and "1 < processingTime request"
  shows "WebServer_processCycle w =
           (0, w\<lparr>ws_requestQueue := [request\<lparr>processingTime := processingTime request - 1\<rparr>]\<rparr>)"
  using assms
  by (simp add: WebServer_processCycle_def getProcessingTime_def setProcessingTime_def)

lemma processCycle_single_done:
  assumes "isActive w" and "ws_requestQueue w = [request]" and "processingTime request \<le> 1"
  shows "WebServer_processCycle w =
           (1, w\<lparr>ws_totalRequestsProcessed := ws_totalRequestsProcessed w + 1,
                 ws_totalProcessingTime := ws_totalProcessingTime w + processingTime request,
                 currentLoad := currentLoad w - 1,
                 ws_requestQueue := []\<rparr>)"
  using assms
  by (simp add: WebServer_processCycle_def getProcessingTime_def)

lemma afterCycles_single:
  assumes "isActive w" and "ws_requestQueue w = [request]" and "int k < processingTime request"
  shows "afterCycles k w =
           w\<lparr>ws_requestQueue := [request\<lparr>processingTime := processingTime request - int k\<rparr>]\<rparr>"
  using assms(3)
proof (induction k)
  case 0
  show ?case using assms(2) by simp
next
  case (Suc k)
  then have prev: "afterCycles k w =
      w\<lparr>ws_requestQueue := [request\<lparr>processingTime := processingTime request - int k\<rparr>]\<rparr>"
    by simp
  have gt: "1 < processingTime request - int k" using Suc.prems by simp
  show ?case
    using assms(1) gt
    by (simp add: prev processCycle_single_pending)
qed

text \<open>
  Claim C1. A request with processing time \<open>D \<ge> 1\<close> that an idle server accepts
  (\<^verbatim>\<open>WebServer::addRequest\<close> returns true on a server whose queue is empty) is reported
  by exactly the \<open>D\<close>-th following call of \<^verbatim>\<open>WebServer::processCycle\<close>: each of the
  first \<open>D - 1\<close> calls returns 0 and leaves the request in the queue with the load at its
  value after placement, and call number \<open>D\<close> returns 1, empties the queue, takes the load
  back down by one and counts one processed request.
\<close>

theorem C1_completion_timing:
  assumes "WebServer_addRequest request w = (True, w1)"
    and "ws_requestQueue w = []"
    and "processingTime request = D"
    and "1 \<le> D"
  shows "(\<forall>k. int k + 1 < D \<longrightarrow>
            fst (WebServer_processCycle (afterCycles k w1)) = 0
            \<and> currentLoad (afterCycles (Suc k) w1) = currentLoad w + 1
            \<and> length (ws_requestQueue (afterCycles (Suc k) w1)) = 1)
         \<and> fst (WebServer_processCycle (afterCycles (nat (D - 1)) w1)) = 1
         \<and> currentLoad (afterCycles (nat D) w1) = currentLoad w
         \<and> ws_requestQueue (afterCycles (nat D) w1) = []
         \<and> ws_totalRequestsProcessed (afterCycles (nat D) w1) = ws_totalRequestsProcessed w + 1"
proof -
  have act: "isActive w"
    and w1: "w1 = w\<lparr>ws_requestQueue := [request], currentLoad := currentLoad w + 1\<rparr>"
    using assms(1,2) by (auto simp: WebServer_addRequest_def split: if_splits)
  have act1: "isActive w1" and q1: "ws_requestQueue w1 = [request]"
    using act w1 by simp_all
  have state: "afterCycles k w1 =
      w1\<lparr>ws_requestQueue := [request\<lparr>processingTime := D - int k\<rparr>]\<rparr>" if "int k < D" for k
    using afterCycles_single [OF act1 q1, of k] that assms(3) by simp
  have early: "fst (WebServer_processCycle (afterCycles k w1)) = 0
            \<and> currentLoad (afterCycles (Suc k) w1) = currentLoad w + 1
            \<and> length (ws_requestQueue (afterCycles (Suc k) w1)) = 1" if "int k + 1 < D" for k
  proof -
    have k: "int k < D" using that by simp
    have gt: "1 < processingTime (request\<lparr>processingTime := D - int k\<rparr>)"
      using that by simp
    have step: "WebServer_processCycle (afterCycles k w1) =
        (0, w1\<lparr>ws_requestQueue := [request\<lparr>processingTime := D - int k - 1\<rparr>]\<rparr>)"
      using processCycle_single_pending
        [of "w1\<lparr>ws_requestQueue := [request\<lparr>processingTime := D - int k\<rparr>]\<rparr>"
            "request\<lparr>processingTime := D - int k\<rparr>"] act1 gt
      by (simp add: state [OF k])
    have load1: "currentLoad w1 = currentLoad w + 1" using w1 by simp
    show ?thesis by (simp add: step load1)
  qed
  have lastk: "int (nat (D - 1)) < D" using assms(4) by simp
  have SucD: "nat D = Suc (nat (D - 1))" using assms(4) by simp
  have final: "WebServer_processCycle (afterCycles (nat (D - 1)) w1) =
      (1, w1\<lparr>ws_totalRequestsProcessed := ws_totalRequestsProcessed w1 + 1,
              ws_totalProcessingTime := ws_totalProcessingTime w1 + 1,
              currentLoad := currentLoad w1 - 1,
              ws_requestQueue := []\<rparr>)"
    using processCycle_single_done
      [of "w1\<lparr>ws_requestQueue := [request\<lparr>processingTime := D - int (nat (D - 1))\<rparr>]\<rparr>"
          "request\<lparr>processingTime := D - int (nat (D - 1))\<rparr>"] act1 assms(4)
    by (simp add: state [OF lastk])
  have fields: "currentLoad w1 = currentLoad w + 1"
    "ws_totalRequestsProcessed w1 = ws_totalRequestsProcessed w"
    using w1 by simp_all
  have late: "fst (WebServer_processCycle (afterCycles (nat (D - 1)) w1)) = 1
         \<and> currentLoad (afterCycles (nat D) w1) = currentLoad w
         \<and> ws_requestQueue (afterCycles (nat D) w1) = []
         \<and> ws_totalRequestsProcessed (afterCycles (nat D) w1) = ws_totalRequestsProcessed w + 1"
    by (simp add: SucD final fields)
  show ?thesis
    using early late by blast
qed

theorem C1_completion_timing_witness:
  "fst (WebServer_processCycle
          (snd (WebServer_addRequest (Request_new ''1.2.3.4'' ''GET'' 5 3 1)
                  (WebServer_new 1 ''192.168.1.1'' 5)))) = 0
   \<and> fst (WebServer_processCycle (afterCycles 1
          (snd (WebServer_addRequest (Request_new ''1.2.3.4'' ''GET'' 5 3 1)
                  (WebServer_new 1 ''192.168.1.1'' 5))))) = 0
   \<and> fst (WebServer_processCycle (afterCycles 2
          (snd (WebServer_addRequest (Request_new ''1.2.3.4'' ''GET'' 5 3 1)
                  (WebServer_new 1 ''192.168.1.1'' 5))))) = 1
   \<and> currentLoad (afterCycles 3
          (snd (WebServer_addRequest (Request_new ''1.2.3.4'' ''GET'' 5 3 1)
                  (WebServer_new 1 ''192.168.1.1'' 5)))) = 0"
proof -
  let ?r = "Request_new ''1.2.3.4'' ''GET'' 5 3 1"
  let ?w = "WebServer_new 1 ''192.168.1.1'' 5"
  have h1: "WebServer_addRequest ?r ?w = (True, snd (WebServer_addRequest ?r ?w))"
    by (simp add: WebServer_addRequest_def WebServer_new_def)
  have h2: "ws_requestQueue ?w = []" by (simp add: WebServer_new_def)
  have h3: "processingTime ?r = 3" by (simp add: Request_new_def)
  have h4: "(1::int) \<le> 3" by simp
  have load0: "currentLoad ?w = 0" by (simp add: WebServer_new_def)
  note main = C1_completion_timing [OF h1 h2 h3 h4]
  have e0: "fst (WebServer_processCycle (afterCycles 0 (snd (WebServer_addRequest ?r ?w)))) = 0"
    using main [THEN conjunct1, THEN spec, of 0] by simp
  have e1: "fst (WebServer_processCycle (afterCycles 1 (snd (WebServer_addRequest ?r ?w)))) = 0"
    using main [THEN conjunct1, THEN spec, of 1] by simp
  have e2: "fst (WebServer_processCycle (afterCycles 2 (snd (WebServer_addRequest ?r ?w)))) = 1"
    using main by simp
  have e3: "currentLoad (afterCycles 3 (snd (WebServer_addRequest ?r ?w))) = 0"
    using main load0 by simp
  show ?thesis using e0 e1 e2 e3 by simp
qed

text \<open>
  Claim C3 says that a completion adds the request's processing time as submitted to the
  server's \<^verbatim>\<open>totalProcessingTime\<close>. The source adds
  \<^verbatim>\<open>currentRequest.getProcessingTime()\<close>, which earlier cycles have overwritten
  through \<^verbatim>\<open>setProcessingTime(remainingTime)\<close>: a request submitted with processing
  time 3 completes in the third cycle and adds 1, not 3.
\<close>

theorem C3_processing_time_at_completion:
  "ws_totalProcessingTime (afterCycles 3
      (snd (WebServer_addRequest (Request_new ''1.2.3.4'' ''GET'' 5 3 1)
              (WebServer_new 1 ''192.168.1.1'' 5)))) = 1
   \<and> ws_totalRequestsProcessed (afterCycles 3
      (snd (WebServer_addRequest (Request_new ''1.2.3.4'' ''GET'' 5 3 1)
              (WebServer_new 1 ''192.168.1.1'' 5)))) = 1
   \<and> processingTime (Request_new ''1.2.3.4'' ''GET'' 5 3 1) = 3"
  by code_simp

theorem C3_processing_time_at_completion_witness:
  "ws_totalProcessingTime (afterCycles 3
      (snd (WebServer_addRequest (Request_new ''1.2.3.4'' ''GET'' 5 3 1)
              (WebServer_new 1 ''192.168.1.1'' 5))))
   \<noteq> processingTime (Request_new ''1.2.3.4'' ''GET'' 5 3 1)"
  using C3_processing_time_at_completion by simp

section \<open>Properties kept by the dispatch loops\<close>

text \<open>
  A property that survives dropping the head of the admission queue and survives a
  placement at an index in range survives the whole scan, hence the whole distribution.
\<close>

lemma scanServers_preserves:
  assumes drop: "\<And>lb. P lb \<Longrightarrow> P (lb\<lparr>requestQueue := snd (getNextRequest (requestQueue lb))\<rparr>)"
    and place: "\<And>lb c. P lb \<Longrightarrow> c < length (servers lb) \<Longrightarrow>
                  canAcceptRequest (servers lb ! c) \<Longrightarrow> P (placeRequest lb c)"
  shows "P lb \<Longrightarrow> P (snd (scanServers lb serverIndex i))"
proof (induction lb serverIndex i rule: scanServers.induct)
  case (1 lb serverIndex i)
  show ?case
  proof (cases "i < length (servers lb)")
    case False
    then show ?thesis using "1.prems" by (simp add: scanServers.simps [of lb serverIndex i])
  next
    case inrange: True
    let ?c = "(serverIndex + i) mod length (servers lb)"
    have "0 < length (servers lb)" using inrange by (cases "servers lb") simp_all
    then have c: "?c < length (servers lb)" by simp
    show ?thesis
    proof (cases "canAcceptRequest (servers lb ! ?c)")
      case False
      with inrange "1.IH"(2) "1.prems" show ?thesis
        by (simp add: scanServers.simps [of lb serverIndex i])
    next
      case can: True
      let ?taken = "getNextRequest (requestQueue lb)"
      show ?thesis
      proof (cases "fst (WebServer_addRequest (fst ?taken) (servers lb ! ?c))")
        case True
        have "P (placeRequest lb ?c)" using place [OF "1.prems" c can] .
        with inrange can True show ?thesis
          by (simp add: scanServers.simps [of lb serverIndex i] Let_def placeRequest_def)
      next
        case False
        have "P (snd (scanServers (lb\<lparr>requestQueue := snd ?taken\<rparr>) serverIndex (i + 1)))"
          using "1.IH"(1) [OF inrange refl can refl refl False] drop [OF "1.prems"] by simp
        then show ?thesis
          using inrange can False
          by (simp add: scanServers.simps [of lb serverIndex i] Let_def)
      qed
    qed
  qed
qed

lemma distributeLoop_preserves:
  assumes scan: "\<And>lb. P lb \<Longrightarrow> P (snd (scanServers lb (nextServerIndex lb) 0))"
  shows "P lb \<Longrightarrow> P (distributeLoop lb attempts maxAttempts)"
proof (induction lb attempts maxAttempts rule: distributeLoop.induct)
  case (1 lb attempts maxAttempts)
  show ?case
  proof (cases "\<not> RequestQueue_isEmpty (requestQueue lb) \<and> attempts < maxAttempts")
    case False
    then show ?thesis using "1.prems"
      by (auto simp add: distributeLoop.simps [of lb attempts maxAttempts])
  next
    case go: True
    show ?thesis
    proof (cases "fst (scanServers lb (nextServerIndex lb) 0)")
      case False
      with go scan [OF "1.prems"] show ?thesis
        by (simp add: distributeLoop.simps [of lb attempts maxAttempts] Let_def)
    next
      case True
      have "P (distributeLoop (snd (scanServers lb (nextServerIndex lb) 0))
                 (attempts + 1) maxAttempts)"
        using "1.IH" [OF go refl] True scan [OF "1.prems"] by simp
      with go True show ?thesis
        by (simp add: distributeLoop.simps [of lb attempts maxAttempts] Let_def)
    qed
  qed
qed

lemma distributeRequests_preserves:
  assumes drop: "\<And>lb. P lb \<Longrightarrow> P (lb\<lparr>requestQueue := snd (getNextRequest (requestQueue lb))\<rparr>)"
    and place: "\<And>lb c. P lb \<Longrightarrow> c < length (servers lb) \<Longrightarrow>
                  canAcceptRequest (servers lb ! c) \<Longrightarrow> P (placeRequest lb c)"
  shows "P lb \<Longrightarrow> P (distributeRequests lb)"
  unfolding distributeRequests_def
  using distributeLoop_preserves [of P, OF scanServers_preserves [of P, OF drop place]]
  by simp

section \<open>Fields that no operation writes\<close>

lemma same_settings_refl: "same_settings lb lb"
  by (simp add: same_settings_def)

lemma same_settings_trans:
  "same_settings a b \<Longrightarrow> same_settings b c \<Longrightarrow> same_settings a c"
  by (simp add: same_settings_def)

lemma getNextRequest_settings:
  "maxSize (snd (getNextRequest q)) = maxSize q"
  "blockedIPs (snd (getNextRequest q)) = blockedIPs q"
  "length (rq_requestQueue (snd (getNextRequest q))) \<le> length (rq_requestQueue q)"
  by (simp_all add: getNextRequest_def split: list.splits)

lemma distributeRequests_settings:
  "same_settings lb (distributeRequests lb) \<and>
   length (servers (distributeRequests lb)) = length (servers lb) \<and>
   length (rq_requestQueue (requestQueue (distributeRequests lb)))
     \<le> length (rq_requestQueue (requestQueue lb))"
proof -
  let ?P = "\<lambda>lb'. same_settings lb lb' \<and> length (servers lb') = length (servers lb) \<and>
    length (rq_requestQueue (requestQueue lb')) \<le> length (rq_requestQueue (requestQueue lb))"
  have "?P (distributeRequests lb)"
  proof (rule distributeRequests_preserves [of ?P])
    show "?P lb" by (simp add: same_settings_refl)
  next
    fix lb' assume "?P lb'"
    then show "?P (lb'\<lparr>requestQueue := snd (getNextRequest (requestQueue lb'))\<rparr>)"
      using getNextRequest_settings(3) [of "requestQueue lb'"]
      by (simp add: same_settings_def getNextRequest_settings(1,2))
  next
    fix lb' c assume "?P lb'"
    then show "?P (placeRequest lb' c)"
      using getNextRequest_settings(3) [of "requestQueue lb'"]
      by (simp add: same_settings_def getNextRequest_settings(1,2) placeRequest_def)
  qed
  then show ?thesis .
qed

lemma addServer_settings: "same_settings lb (snd (addServer lb))"
  by (simp add: addServer_def same_settings_def Let_def)

lemma removeServer_settings:
  "removeServer lb = Some (ok, lb') \<Longrightarrow> same_settings lb lb'"
  by (auto simp add: removeServer_def same_settings_def split: if_splits)

lemma checkLoadBalancing_defined: "checkLoadBalancing lb \<noteq> None"
  by (auto simp add: checkLoadBalancing_def Let_def addServer_def removeServer_def)

lemma checkLoadBalancing_settings:
  "checkLoadBalancing lb = Some lb' \<Longrightarrow> same_settings lb lb'"
  by (auto simp add: checkLoadBalancing_def Let_def addServer_def removeServer_def
      same_settings_def split: if_splits)

lemma RequestQueue_addRequest_settings:
  "maxSize (snd (RequestQueue_addRequest r q)) = maxSize q"
  "blockedIPs (snd (RequestQueue_addRequest r q)) = blockedIPs q"
  by (simp_all add: RequestQueue_addRequest_def)


lemma processCycle_settings:
  assumes "LoadBalancer_processCycle lb = Some (completed, lb')"
  shows "same_settings lb lb'"
proof -
  let ?lb1 = "lb\<lparr>servers := snd (processServers (servers lb) 0)\<rparr>"
  obtain lb3 where lb3: "checkLoadBalancing (distributeRequests ?lb1) = Some lb3"
    and lb': "lb' = lb3\<lparr>totalRequestsProcessed := totalRequestsProcessed lb3 + completed\<rparr>"
    using assms by (auto simp add: LoadBalancer_processCycle_def Let_def split: option.splits)
  have a: "same_settings lb ?lb1" by (simp add: same_settings_def)
  have b: "same_settings ?lb1 (distributeRequests ?lb1)"
    using distributeRequests_settings [of ?lb1] by simp
  have c: "same_settings (distributeRequests ?lb1) lb3"
    using lb3 by (rule checkLoadBalancing_settings)
  have "same_settings lb lb3"
    using a b c by (blast intro: same_settings_trans)
  then show ?thesis by (simp add: lb' same_settings_def)
qed

lemma apply_operation_fixed:
  assumes "apply_operation lb op = Some lb'"
  shows "maxServers lb' = maxServers lb \<and> minServers lb' = minServers lb
    \<and> loadThreshold lb' = loadThreshold lb
    \<and> totalProcessingTime lb' = totalProcessingTime lb
    \<and> maxSize (requestQueue lb') = maxSize (requestQueue lb)"
proof (cases op)
  case AddServer
  then show ?thesis using assms addServer_settings [of lb] by (auto simp add: same_settings_def)
next
  case RemoveServer
  then show ?thesis using assms removeServer_settings [of lb]
    by (auto simp add: same_settings_def)
next
  case (AddRequest r)
  then show ?thesis using assms RequestQueue_addRequest_settings(1) [of r "requestQueue lb"]
    by (auto simp add: LoadBalancer_addRequest_def split: prod.splits)
next
  case ProcessCycle
  then show ?thesis using assms processCycle_settings [of lb]
    by (auto simp add: same_settings_def)
next
  case DistributeRequests
  then show ?thesis using assms distributeRequests_settings [of lb]
    by (auto simp add: same_settings_def)
next
  case CheckLoadBalancing
  then show ?thesis using assms checkLoadBalancing_settings [of lb]
    by (auto simp add: same_settings_def)
next
  case (BlockIP ip)
  then show ?thesis using assms by (auto simp add: blockIP_def RequestQueue_blockIP_def)
next
  case (UnblockIP ip)
  then show ?thesis using assms by (auto simp add: unblockIP_def RequestQueue_unblockIP_def)
qed

lemma run_fixed:
  "run lb ops = Some lb' \<Longrightarrow>
     maxServers lb' = maxServers lb \<and> minServers lb' = minServers lb
     \<and> loadThreshold lb' = loadThreshold lb
     \<and> totalProcessingTime lb' = totalProcessingTime lb
     \<and> maxSize (requestQueue lb') = maxSize (requestQueue lb)"
proof (induction ops arbitrary: lb)
  case Nil
  then show ?case by simp
next
  case (Cons op ops)
  then obtain mid where mid: "apply_operation lb op = Some mid" and rest: "run mid ops = Some lb'"
    by (auto split: option.splits)
  show ?case using Cons.IH [OF rest] apply_operation_fixed [OF mid] by simp
qed



lemma addServer_fixed:
  "maxServers (snd (addServer lb)) = maxServers lb"
  "minServers (snd (addServer lb)) = minServers lb"
  "loadThreshold (snd (addServer lb)) = loadThreshold lb"
  "totalProcessingTime (snd (addServer lb)) = totalProcessingTime lb"
  "requestQueue (snd (addServer lb)) = requestQueue lb"
  "nextServerIndex (snd (addServer lb)) = nextServerIndex lb"
  by (simp_all add: addServer_def Let_def)

lemma addInitialServers_fixed_all:
  "maxServers (addInitialServers i n lb) = maxServers lb
   \<and> minServers (addInitialServers i n lb) = minServers lb
   \<and> loadThreshold (addInitialServers i n lb) = loadThreshold lb
   \<and> totalProcessingTime (addInitialServers i n lb) = totalProcessingTime lb
   \<and> requestQueue (addInitialServers i n lb) = requestQueue lb
   \<and> nextServerIndex (addInitialServers i n lb) = nextServerIndex lb"
proof (induction i n lb rule: addInitialServers.induct)
  case (1 i n lb)
  show ?case
  proof (cases "i < n")
    case True
    then show ?thesis
      using "1.IH" [OF True]
      by (simp add: addInitialServers.simps [of i n lb] addServer_fixed)
  next
    case False
    then show ?thesis by (simp add: addInitialServers.simps [of i n lb])
  qed
qed

lemmas addInitialServers_fixed =
  addInitialServers_fixed_all [THEN conjunct1]
  addInitialServers_fixed_all [THEN conjunct2, THEN conjunct1]
  addInitialServers_fixed_all [THEN conjunct2, THEN conjunct2, THEN conjunct1]
  addInitialServers_fixed_all [THEN conjunct2, THEN conjunct2, THEN conjunct2, THEN conjunct1]
  addInitialServers_fixed_all [THEN conjunct2, THEN conjunct2, THEN conjunct2, THEN conjunct2,
    THEN conjunct1]
  addInitialServers_fixed_all [THEN conjunct2, THEN conjunct2, THEN conjunct2, THEN conjunct2,
    THEN conjunct2]

lemma LoadBalancer_new_fields:
  "maxServers (LoadBalancer_new i mx mn t) = mx"
  "minServers (LoadBalancer_new i mx mn t) = mn"
  "loadThreshold (LoadBalancer_new i mx mn t) = t"
  "totalProcessingTime (LoadBalancer_new i mx mn t) = 0"
  "requestQueue (LoadBalancer_new i mx mn t) = RequestQueue_default"
  "nextServerIndex (LoadBalancer_new i mx mn t) = 0"
  by (simp_all add: LoadBalancer_new_def addInitialServers_fixed)

lemma LoadBalancer_default_fields:
  "maxServers LoadBalancer_default = 20"
  "minServers LoadBalancer_default = 1"
  "totalProcessingTime LoadBalancer_default = 0"
  "requestQueue LoadBalancer_default = RequestQueue_default"
  "nextServerIndex LoadBalancer_default = 0"
  by (simp_all add: LoadBalancer_default_def addServer_def Let_def)

text \<open>
  Claim C10. In every state reached from either constructor by any sequence of public
  calls, the load balancer's own \<^verbatim>\<open>totalProcessingTime\<close> is still 0, and
  \<^verbatim>\<open>LoadBalancer::getAverageProcessingTime\<close> returns 0, whether or not requests have
  completed.
\<close>

theorem C10_average_processing_time_is_zero:
  assumes "run (LoadBalancer_new initialServers maxServerCount minServerCount threshold) ops
             = Some lb
           \<or> run LoadBalancer_default ops = Some lb"
  shows "getAverageProcessingTime lb = 0 \<and> totalProcessingTime lb = 0"
proof -
  have "totalProcessingTime lb = 0"
    using assms
      run_fixed [of "LoadBalancer_new initialServers maxServerCount minServerCount threshold"
        ops lb]
      run_fixed [of LoadBalancer_default ops lb]
    by (auto simp add: LoadBalancer_new_fields LoadBalancer_default_fields)
  then show ?thesis by (simp add: getAverageProcessingTime_def)
qed

theorem C10_average_processing_time_is_zero_witness:
  "map_option getAverageProcessingTime
     (run (LoadBalancer_new 1 2 1 (d_literal 0.8))
        [AddRequest (Request_new ''1.2.3.4'' ''GET'' 5 1 1), ProcessCycle, ProcessCycle])
     = Some 0
   \<and> map_option getTotalRequestsProcessed
     (run (LoadBalancer_new 1 2 1 (d_literal 0.8))
        [AddRequest (Request_new ''1.2.3.4'' ''GET'' 5 1 1), ProcessCycle, ProcessCycle])
     = Some 1"
proof -
  let ?ops = "[AddRequest (Request_new ''1.2.3.4'' ''GET'' 5 1 1), ProcessCycle, ProcessCycle]"
  have completed: "map_option getTotalRequestsProcessed (run (LoadBalancer_new 1 2 1 (d_literal 0.8)) ?ops)
      = Some 1"
    by code_simp
  then obtain lb where lb: "run (LoadBalancer_new 1 2 1 (d_literal 0.8)) ?ops = Some lb" by auto
  show ?thesis
    using C10_average_processing_time_is_zero [of 1 2 1 "d_literal 0.8" ?ops lb] lb completed
    by simp
qed

section \<open>The pool stays within its bounds\<close>

lemma processServers_length: "length (snd (processServers ss completed)) = length ss"
  by (induction ss arbitrary: completed) (simp_all add: Let_def)














section \<open>The admission queue\<close>

text \<open>
  The queue never holds more than its capacity: a queue constructed with a capacity that
  is not negative starts within it, and every member function keeps it there. The same
  holds for the queue of a load balancer, whose capacity is the default 1000.
\<close>

lemma RequestQueue_new_within_capacity:
  "0 \<le> maxQueueSize \<Longrightarrow>
     RequestQueue_getSize (RequestQueue_new maxQueueSize) \<le> maxSize (RequestQueue_new maxQueueSize)"
  "RequestQueue_getSize RequestQueue_default \<le> maxSize RequestQueue_default"
  by (simp_all add: RequestQueue_new_def RequestQueue_default_def RequestQueue_getSize_def)

lemma RequestQueue_operations_within_capacity:
  assumes "RequestQueue_getSize q \<le> maxSize q"
  shows "RequestQueue_getSize (snd (RequestQueue_addRequest r q))
           \<le> maxSize (snd (RequestQueue_addRequest r q))"
    and "RequestQueue_getSize (snd (getNextRequest q)) \<le> maxSize (snd (getNextRequest q))"
    and "RequestQueue_getSize (RequestQueue_clear q) \<le> maxSize (RequestQueue_clear q)"
    and "RequestQueue_getSize (RequestQueue_blockIP ip q) \<le> maxSize (RequestQueue_blockIP ip q)"
    and "RequestQueue_getSize (RequestQueue_unblockIP ip q)
           \<le> maxSize (RequestQueue_unblockIP ip q)"
  using assms
  by (auto simp add: RequestQueue_addRequest_def getNextRequest_def RequestQueue_clear_def
      RequestQueue_blockIP_def RequestQueue_unblockIP_def RequestQueue_getSize_def
      RequestQueue_isFull_def split: list.splits)

lemma apply_operation_queue_within_capacity:
  assumes "RequestQueue_getSize (requestQueue lb) \<le> maxSize (requestQueue lb)"
    and "apply_operation lb op = Some lb'"
  shows "RequestQueue_getSize (requestQueue lb') \<le> maxSize (requestQueue lb')"
proof -
  have shrink: "RequestQueue_getSize (requestQueue b) \<le> maxSize (requestQueue b)"
    if "same_settings lb b"
      and "length (rq_requestQueue (requestQueue b)) \<le> length (rq_requestQueue (requestQueue lb))"
    for b
    using that assms(1) by (simp add: same_settings_def RequestQueue_getSize_def)
  show ?thesis
  proof (cases op)
    case AddServer
    then show ?thesis using assms by (auto simp add: addServer_fixed)
  next
    case RemoveServer
    then show ?thesis using assms
      by (auto simp add: removeServer_def split: if_splits)
  next
    case (AddRequest r)
    then show ?thesis
      using assms RequestQueue_operations_within_capacity(1) [OF assms(1), of r]
      by (auto simp add: LoadBalancer_addRequest_def split: prod.splits)
  next
    case ProcessCycle
    then obtain completed where pc: "LoadBalancer_processCycle lb = Some (completed, lb')"
      using assms(2) by auto
    let ?lb1 = "lb\<lparr>servers := snd (processServers (servers lb) 0)\<rparr>"
    obtain lb3 where lb3: "checkLoadBalancing (distributeRequests ?lb1) = Some lb3"
      and lb': "lb' = lb3\<lparr>totalRequestsProcessed := totalRequestsProcessed lb3 + completed\<rparr>"
      using pc by (auto simp add: LoadBalancer_processCycle_def Let_def split: option.splits)
    have "requestQueue lb3 = requestQueue (distributeRequests ?lb1)"
      using lb3
      by (auto simp add: checkLoadBalancing_def Let_def addServer_def removeServer_def
          split: if_splits)
    then have "requestQueue lb' = requestQueue (distributeRequests ?lb1)" by (simp add: lb')
    moreover have "RequestQueue_getSize (requestQueue (distributeRequests ?lb1))
          \<le> maxSize (requestQueue (distributeRequests ?lb1))"
      using distributeRequests_settings [of ?lb1] assms(1)
      by (simp add: same_settings_def RequestQueue_getSize_def)
    ultimately show ?thesis by simp
  next
    case DistributeRequests
    then show ?thesis using assms(2) distributeRequests_settings [of lb] shrink by auto
  next
    case CheckLoadBalancing
    then have "requestQueue lb' = requestQueue lb"
      using assms(2)
      by (auto simp add: checkLoadBalancing_def Let_def addServer_def removeServer_def
          split: if_splits)
    then show ?thesis using assms(1) by simp
  next
    case (BlockIP ip)
    then show ?thesis
      using assms RequestQueue_operations_within_capacity(4) [OF assms(1), of ip]
      by (auto simp add: blockIP_def)
  next
    case (UnblockIP ip)
    then show ?thesis
      using assms RequestQueue_operations_within_capacity(5) [OF assms(1), of ip]
      by (auto simp add: unblockIP_def)
  qed
qed

lemma run_queue_within_capacity:
  "RequestQueue_getSize (requestQueue lb) \<le> maxSize (requestQueue lb) \<Longrightarrow>
   run lb ops = Some lb' \<Longrightarrow>
   RequestQueue_getSize (requestQueue lb') \<le> maxSize (requestQueue lb')"
proof (induction ops arbitrary: lb)
  case Nil
  then show ?case by simp
next
  case (Cons op ops)
  then obtain mid where mid: "apply_operation lb op = Some mid" and rest: "run mid ops = Some lb'"
    by (auto split: option.splits)
  show ?case
    using Cons.IH [OF apply_operation_queue_within_capacity [OF Cons.prems(1) mid] rest] .
qed

lemma constructed_queue_within_capacity:
  "run (LoadBalancer_new initialServers maxServerCount minServerCount threshold) ops = Some lb
   \<or> run LoadBalancer_default ops = Some lb \<Longrightarrow>
   RequestQueue_getSize (requestQueue lb) \<le> maxSize (requestQueue lb)"
  using run_queue_within_capacity
    [of "LoadBalancer_new initialServers maxServerCount minServerCount threshold" ops lb]
    run_queue_within_capacity [of LoadBalancer_default ops lb]
  by (auto simp add: LoadBalancer_new_fields LoadBalancer_default_fields
      RequestQueue_new_within_capacity(2))

text \<open>A blocked address stays blocked until \<^verbatim>\<open>unblockIP\<close> is called for it.\<close>

lemma apply_operation_keeps_blocked:
  assumes "a \<in> set (blockedIPs (requestQueue lb))"
    and "op \<noteq> UnblockIP a"
    and "apply_operation lb op = Some lb'"
  shows "a \<in> set (blockedIPs (requestQueue lb'))"
proof (cases op)
  case AddServer
  then show ?thesis using assms by (auto simp add: addServer_fixed)
next
  case RemoveServer
  then show ?thesis using assms removeServer_settings [of lb]
    by (auto simp add: same_settings_def)
next
  case (AddRequest r)
  then show ?thesis using assms RequestQueue_addRequest_settings(2) [of r "requestQueue lb"]
    by (auto simp add: LoadBalancer_addRequest_def split: prod.splits)
next
  case ProcessCycle
  then show ?thesis using assms processCycle_settings [of lb]
    by (auto simp add: same_settings_def)
next
  case DistributeRequests
  then show ?thesis using assms distributeRequests_settings [of lb]
    by (auto simp add: same_settings_def)
next
  case CheckLoadBalancing
  then show ?thesis using assms checkLoadBalancing_settings [of lb]
    by (auto simp add: same_settings_def)
next
  case (BlockIP ip)
  then show ?thesis using assms
    by (auto simp add: blockIP_def RequestQueue_blockIP_def isIPBlocked_def)
next
  case (UnblockIP ip)
  then have "ip \<noteq> a" using assms(2) by simp
  then show ?thesis using assms UnblockIP
    by (auto simp add: unblockIP_def RequestQueue_unblockIP_def)
qed

lemma run_keeps_blocked:
  "a \<in> set (blockedIPs (requestQueue lb)) \<Longrightarrow> UnblockIP a \<notin> set ops \<Longrightarrow>
   run lb ops = Some lb' \<Longrightarrow> a \<in> set (blockedIPs (requestQueue lb'))"
proof (induction ops arbitrary: lb)
  case Nil
  then show ?case by simp
next
  case (Cons op ops)
  then obtain mid where mid: "apply_operation lb op = Some mid" and rest: "run mid ops = Some lb'"
    by (auto split: option.splits)
  have "op \<noteq> UnblockIP a" using Cons.prems(2) by auto
  then have "a \<in> set (blockedIPs (requestQueue mid))"
    using apply_operation_keeps_blocked [OF Cons.prems(1) _ mid] by simp
  then show ?case using Cons.IH [OF _ _ rest] Cons.prems(2) by simp
qed

lemma blockIP_blocks: "a \<in> set (blockedIPs (requestQueue (blockIP a lb)))"
  by (simp add: blockIP_def RequestQueue_blockIP_def isIPBlocked_def)

text \<open>
  Claim C7 says that \<^verbatim>\<open>RequestQueue::addRequest\<close> refuses exactly when the address
  is blocked or the size equals the capacity. The guard of the source is
  \<^verbatim>\<open>getSize() >= maxSize\<close>: a queue constructed with capacity \<open>-1\<close> is empty, its
  size differs from its capacity, nothing is blocked, and it refuses.
\<close>

theorem C7_enqueue_counterexample:
  "RequestQueue_addRequest (Request_new ''1.2.3.4'' ''GET'' 5 3 1) (RequestQueue_new (-1))
     = (False, RequestQueue_new (-1))
   \<and> \<not> isIPBlocked (clientIP (Request_new ''1.2.3.4'' ''GET'' 5 3 1)) (RequestQueue_new (-1))
   \<and> RequestQueue_getSize (RequestQueue_new (-1)) \<noteq> maxSize (RequestQueue_new (-1))"
  by (simp add: RequestQueue_addRequest_def RequestQueue_new_def RequestQueue_isFull_def
      RequestQueue_getSize_def isIPBlocked_def getClientIP_def Request_new_def)

text \<open>On a queue within its capacity, at least the capacity is exactly the capacity.\<close>

lemma RequestQueue_addRequest_within_capacity:
  assumes "RequestQueue_getSize q \<le> maxSize q"
  shows "RequestQueue_addRequest request q =
           (if isIPBlocked (clientIP request) q \<or> RequestQueue_getSize q = maxSize q
            then (False, q)
            else (True, q\<lparr>rq_requestQueue := rq_requestQueue q @ [request],
                           totalRequestsAdded := totalRequestsAdded q + 1\<rparr>))"
  using assms
  by (auto simp add: RequestQueue_addRequest_def RequestQueue_isFull_def getClientIP_def)

text \<open>
  Claim C7, amended. For every queue state and every request,
  \<^verbatim>\<open>RequestQueue::addRequest\<close> returns false and leaves the queue as it is exactly when
  the client address of the request is blocked or the size is at least the capacity;
  otherwise it returns true, appends the request at the tail and adds one to
  \<^verbatim>\<open>totalRequestsAdded\<close>. \<^verbatim>\<open>LoadBalancer::addRequest\<close> is that call on the queue
  of the load balancer. After \<^verbatim>\<open>blockIP(a)\<close>, and any public calls other than
  \<^verbatim>\<open>unblockIP(a)\<close>, a request from \<open>a\<close> is refused and the queue size is unchanged.
\<close>

theorem C7_enqueue:
  "RequestQueue_addRequest request q =
     (if isIPBlocked (clientIP request) q \<or> RequestQueue_getSize q \<ge> maxSize q
      then (False, q)
      else (True, q\<lparr>rq_requestQueue := rq_requestQueue q @ [request],
                     totalRequestsAdded := totalRequestsAdded q + 1\<rparr>))
   \<and> LoadBalancer_addRequest request lb =
       (fst (RequestQueue_addRequest request (requestQueue lb)),
        lb\<lparr>requestQueue := snd (RequestQueue_addRequest request (requestQueue lb))\<rparr>)
   \<and> (\<forall>ops lb'. UnblockIP (clientIP request) \<notin> set ops \<longrightarrow>
          run (blockIP (clientIP request) lb) ops = Some lb' \<longrightarrow>
          LoadBalancer_addRequest request lb' = (False, lb')
          \<and> RequestQueue_getSize (requestQueue (snd (LoadBalancer_addRequest request lb')))
              = RequestQueue_getSize (requestQueue lb'))"
proof -
  have one: "RequestQueue_addRequest request q =
     (if isIPBlocked (clientIP request) q \<or> RequestQueue_getSize q \<ge> maxSize q
      then (False, q)
      else (True, q\<lparr>rq_requestQueue := rq_requestQueue q @ [request],
                     totalRequestsAdded := totalRequestsAdded q + 1\<rparr>))"
    by (simp add: RequestQueue_addRequest_def RequestQueue_isFull_def getClientIP_def)
  have two: "LoadBalancer_addRequest request lb =
       (fst (RequestQueue_addRequest request (requestQueue lb)),
        lb\<lparr>requestQueue := snd (RequestQueue_addRequest request (requestQueue lb))\<rparr>)"
    by (simp add: LoadBalancer_addRequest_def split: prod.splits)
  have three: "LoadBalancer_addRequest request lb' = (False, lb')
          \<and> RequestQueue_getSize (requestQueue (snd (LoadBalancer_addRequest request lb')))
              = RequestQueue_getSize (requestQueue lb')"
    if "UnblockIP (clientIP request) \<notin> set ops"
      and "run (blockIP (clientIP request) lb) ops = Some lb'" for ops lb'
  proof -
    have "clientIP request \<in> set (blockedIPs (requestQueue lb'))"
      using run_keeps_blocked [OF blockIP_blocks that] .
    then have "LoadBalancer_addRequest request lb' = (False, lb')"
      by (simp add: LoadBalancer_addRequest_def RequestQueue_addRequest_def isIPBlocked_def
          getClientIP_def)
    then show ?thesis by simp
  qed
  show ?thesis using one two three by blast
qed

theorem C7_enqueue_witness:
  "fst (RequestQueue_addRequest (Request_new ''1.2.3.4'' ''GET'' 5 3 1) (RequestQueue_new 1))
   \<and> \<not> fst (RequestQueue_addRequest (Request_new ''1.2.3.4'' ''GET'' 5 3 1)
              (snd (RequestQueue_addRequest (Request_new ''1.2.3.4'' ''GET'' 5 3 1)
                      (RequestQueue_new 1))))
   \<and> \<not> fst (LoadBalancer_addRequest (Request_new ''1.2.3.4'' ''GET'' 5 3 1)
              (blockIP ''1.2.3.4'' (LoadBalancer_new 1 2 1 (d_literal 0.8))))"
proof -
  let ?r = "Request_new ''1.2.3.4'' ''GET'' 5 3 1"
  let ?q0 = "RequestQueue_new 1"
  let ?q1 = "snd (RequestQueue_addRequest ?r ?q0)"
  let ?lb = "LoadBalancer_new 1 2 1 (d_literal 0.8)"
  have ip: "clientIP ?r = ''1.2.3.4''" by (simp add: Request_new_def)
  have free: "\<not> isIPBlocked (clientIP ?r) ?q0" "\<not> RequestQueue_getSize ?q0 \<ge> maxSize ?q0"
    by (simp_all add: RequestQueue_new_def RequestQueue_getSize_def isIPBlocked_def)
  have first: "fst (RequestQueue_addRequest ?r ?q0)"
    using C7_enqueue [of ?r ?q0 ?lb] free by simp
  have full: "RequestQueue_getSize ?q1 \<ge> maxSize ?q1"
    by (simp add: RequestQueue_addRequest_def RequestQueue_new_def
        RequestQueue_getSize_def RequestQueue_isFull_def isIPBlocked_def)
  have second: "\<not> fst (RequestQueue_addRequest ?r ?q1)"
    using C7_enqueue [of ?r ?q1 ?lb] full by simp
  have "run (blockIP (clientIP ?r) ?lb) [] = Some (blockIP (clientIP ?r) ?lb)" by simp
  moreover have "UnblockIP (clientIP ?r) \<notin> set []" by simp
  ultimately have "LoadBalancer_addRequest ?r (blockIP (clientIP ?r) ?lb)
      = (False, blockIP (clientIP ?r) ?lb)"
    using C7_enqueue [of ?r ?q0 ?lb] by blast
  then have third: "\<not> fst (LoadBalancer_addRequest ?r (blockIP ''1.2.3.4'' ?lb))"
    by (simp add: ip)
  show ?thesis using first second third by blast
qed

text \<open>
  Claim C8 says that \<^verbatim>\<open>RequestQueue::getUtilization\<close> returns size over capacity as a
  fraction between 0 and 1. The source multiplies by \<^verbatim>\<open>100.0\<close> and documents the
  result as a percentage: a queue of capacity 4 that holds one request reports 25.
\<close>

theorem C8_utilization_counterexample:
  "\<not> (RequestQueue_getUtilization
          (snd (RequestQueue_addRequest (Request_new ''1.2.3.4'' ''GET'' 5 3 1)
                  (RequestQueue_new 4)))
        = real_of_int (RequestQueue_getSize
            (snd (RequestQueue_addRequest (Request_new ''1.2.3.4'' ''GET'' 5 3 1)
                    (RequestQueue_new 4))))
          / real_of_int (maxSize
            (snd (RequestQueue_addRequest (Request_new ''1.2.3.4'' ''GET'' 5 3 1)
                    (RequestQueue_new 4))))
      \<and> 0 \<le> RequestQueue_getUtilization
          (snd (RequestQueue_addRequest (Request_new ''1.2.3.4'' ''GET'' 5 3 1)
                  (RequestQueue_new 4)))
      \<and> RequestQueue_getUtilization
          (snd (RequestQueue_addRequest (Request_new ''1.2.3.4'' ''GET'' 5 3 1)
                  (RequestQueue_new 4))) \<le> 1)"
  by (simp add: RequestQueue_getUtilization_def RequestQueue_addRequest_def
      RequestQueue_new_def RequestQueue_getSize_def RequestQueue_isFull_def isIPBlocked_def)

text \<open>
  Every queue that the constructors and member functions of \<^verbatim>\<open>RequestQueue\<close> can
  produce holds at most \<open>max 0 maxSize\<close> requests, whatever capacity it was constructed
  with.
\<close>

lemma RequestQueue_size_bounded:
  "RequestQueue_getSize (RequestQueue_new maxQueueSize)
     \<le> max 0 (maxSize (RequestQueue_new maxQueueSize))"
  "RequestQueue_getSize RequestQueue_default \<le> max 0 (maxSize RequestQueue_default)"
  "RequestQueue_getSize q \<le> max 0 (maxSize q) \<Longrightarrow>
     RequestQueue_getSize (snd (RequestQueue_addRequest r q))
       \<le> max 0 (maxSize (snd (RequestQueue_addRequest r q)))"
  "RequestQueue_getSize q \<le> max 0 (maxSize q) \<Longrightarrow>
     RequestQueue_getSize (snd (getNextRequest q)) \<le> max 0 (maxSize (snd (getNextRequest q)))"
  "RequestQueue_getSize q \<le> max 0 (maxSize q) \<Longrightarrow>
     RequestQueue_getSize (RequestQueue_clear q) \<le> max 0 (maxSize (RequestQueue_clear q))"
  "RequestQueue_getSize q \<le> max 0 (maxSize q) \<Longrightarrow>
     RequestQueue_getSize (RequestQueue_blockIP ip q)
       \<le> max 0 (maxSize (RequestQueue_blockIP ip q))"
  "RequestQueue_getSize q \<le> max 0 (maxSize q) \<Longrightarrow>
     RequestQueue_getSize (RequestQueue_unblockIP ip q)
       \<le> max 0 (maxSize (RequestQueue_unblockIP ip q))"
  by (auto simp add: RequestQueue_new_def RequestQueue_default_def RequestQueue_addRequest_def
      getNextRequest_def RequestQueue_clear_def RequestQueue_blockIP_def
      RequestQueue_unblockIP_def RequestQueue_getSize_def RequestQueue_isFull_def
      split: list.splits)

text \<open>
  Claim C8, amended. For every queue state that the constructors and member functions can
  produce, \<^verbatim>\<open>RequestQueue::getUtilization\<close> returns size over capacity times 100, a
  percentage between 0 and 100, and 0 when the capacity is 0.
\<close>

theorem C8_utilization_percentage:
  assumes "RequestQueue_getSize q \<le> max 0 (maxSize q)"
  shows "RequestQueue_getUtilization q
           = (if maxSize q = 0 then 0
              else real_of_int (RequestQueue_getSize q) / real_of_int (maxSize q) * 100)
       \<and> 0 \<le> RequestQueue_getUtilization q
       \<and> RequestQueue_getUtilization q \<le> 100"
proof -
  have size: "0 \<le> RequestQueue_getSize q" by (simp add: RequestQueue_getSize_def)
  consider (zero) "maxSize q = 0" | (neg) "maxSize q < 0" | (pos) "0 < maxSize q" by linarith
  then show ?thesis
  proof cases
    case zero
    then show ?thesis by (simp add: RequestQueue_getUtilization_def)
  next
    case neg
    then have "RequestQueue_getSize q = 0" using assms size by simp
    then show ?thesis using neg by (simp add: RequestQueue_getUtilization_def)
  next
    case pos
    then have mpos: "0 < real_of_int (maxSize q)" by simp
    have le: "real_of_int (RequestQueue_getSize q) \<le> real_of_int (maxSize q)"
      using assms pos by simp
    have nonneg: "0 \<le> real_of_int (RequestQueue_getSize q)" using size by simp
    have "0 \<le> real_of_int (RequestQueue_getSize q) / real_of_int (maxSize q) * 100"
      using mpos nonneg by simp
    moreover have "real_of_int (RequestQueue_getSize q) / real_of_int (maxSize q) * 100 \<le> 100"
      using mpos le by (simp add: field_simps)
    ultimately show ?thesis using pos by (simp add: RequestQueue_getUtilization_def)
  qed
qed

theorem C8_utilization_percentage_witness:
  "RequestQueue_getUtilization
          (snd (RequestQueue_addRequest (Request_new ''1.2.3.4'' ''GET'' 5 3 1)
                  (RequestQueue_new 4))) = 25
   \<and> RequestQueue_getUtilization (RequestQueue_new 0) = 0"
proof -
  let ?q = "snd (RequestQueue_addRequest (Request_new ''1.2.3.4'' ''GET'' 5 3 1)
                  (RequestQueue_new 4))"
  have size: "RequestQueue_getSize ?q = 1" and cap: "maxSize ?q = 4"
    by (simp_all add: RequestQueue_addRequest_def RequestQueue_new_def
        RequestQueue_getSize_def RequestQueue_isFull_def isIPBlocked_def)
  have h: "RequestQueue_getSize ?q \<le> max 0 (maxSize ?q)" by (simp add: size cap)
  have a: "RequestQueue_getUtilization ?q = 25"
    using C8_utilization_percentage [OF h] by (simp add: size cap)
  have h0: "RequestQueue_getSize (RequestQueue_new 0) \<le> max 0 (maxSize (RequestQueue_new 0))"
    by (simp add: RequestQueue_new_def RequestQueue_getSize_def)
  have b: "RequestQueue_getUtilization (RequestQueue_new 0) = 0"
    using C8_utilization_percentage [OF h0] by (simp add: RequestQueue_new_def)
  show ?thesis using a b by simp
qed

section \<open>Every server of a load balancer is consistent\<close>

lemma processCycle_loop_fields:
  "processCycle_loop q (c, tmp, w) = (c', tmp', w') \<Longrightarrow>
     currentLoad w' + int (length q) + int (length tmp) = currentLoad w + int (length tmp')
     \<and> isActive w' = isActive w \<and> maxCapacity w' = maxCapacity w"
proof (induction q arbitrary: c tmp w)
  case Nil
  then show ?case by simp
next
  case (Cons r q)
  show ?case
  proof (cases "getProcessingTime r - 1 \<le> 0")
    case True
    then show ?thesis using Cons.IH Cons.prems by (fastforce simp add: Let_def)
  next
    case False
    then show ?thesis using Cons.IH Cons.prems by (fastforce simp add: Let_def)
  qed
qed

lemma WebServer_processCycle_ok: "server_ok w \<Longrightarrow> server_ok (snd (WebServer_processCycle w))"
proof -
  assume ok: "server_ok w"
  obtain c tmp w' where loop: "processCycle_loop (ws_requestQueue w) (0, [], w) = (c, tmp, w')"
    by (metis prod_cases3)
  show ?thesis
    using processCycle_loop_fields [OF loop] ok
    by (simp add: WebServer_processCycle_def loop server_ok_def)
qed

lemma WebServer_addRequest_ok: "server_ok w \<Longrightarrow> server_ok (snd (WebServer_addRequest r w))"
  by (simp add: WebServer_addRequest_def server_ok_def)

lemma processServers_ok:
  "list_all server_ok ss \<Longrightarrow> list_all server_ok (snd (processServers ss completed))"
  by (induction ss arbitrary: completed) (simp_all add: Let_def WebServer_processCycle_ok)

lemma list_all_update: "list_all P xs \<Longrightarrow> P x \<Longrightarrow> list_all P (xs[i := x])"
  by (induction xs arbitrary: i) (auto split: nat.splits)

lemma distributeRequests_ok: "servers_ok lb \<Longrightarrow> servers_ok (distributeRequests lb)"
proof (rule distributeRequests_preserves [of servers_ok])
  fix lb' assume "servers_ok lb'"
  then show "servers_ok (lb'\<lparr>requestQueue := snd (getNextRequest (requestQueue lb'))\<rparr>)"
    by (simp add: servers_ok_def)
next
  fix lb' c assume ok: "servers_ok lb'" and c: "c < length (servers lb')"
  have "server_ok (servers lb' ! c)" using ok c by (simp add: servers_ok_def list_all_length)
  then show "servers_ok (placeRequest lb' c)"
    using ok by (simp add: servers_ok_def placeRequest_def list_all_update WebServer_addRequest_ok)
qed

lemma addServer_ok: "servers_ok lb \<Longrightarrow> servers_ok (snd (addServer lb))"
  by (simp add: servers_ok_def addServer_def Let_def server_ok_def WebServer_new_def)

lemma removeServer_ok: "servers_ok lb \<Longrightarrow> removeServer lb = Some (ok, lb') \<Longrightarrow> servers_ok lb'"
proof -
  assume ok: "servers_ok lb" and rm: "removeServer lb = Some (ok, lb')"
  have "servers lb' = servers lb \<or> servers lb' = butlast (servers lb)"
    using rm by (auto simp add: removeServer_def split: if_splits)
  then have "set (servers lb') \<subseteq> set (servers lb)"
    by (auto dest: in_set_butlastD)
  then show "servers_ok lb'" using ok by (auto simp add: servers_ok_def list_all_iff)
qed

lemma checkLoadBalancing_ok:
  assumes "servers_ok lb" and "checkLoadBalancing lb = Some lb'"
  shows "servers_ok lb'"
proof (cases "servers lb = []")
  case True
  with assms show ?thesis by (simp add: checkLoadBalancing_def)
next
  case False
  let ?lb1 = "if (d_less (loadThreshold lb) (d_div (getSystemUtilization lb) (d_literal 100))
                  \<or> getQueueSize lb > 10)
                 \<and> int (length (servers lb)) < maxServers lb
              then snd (addServer lb) else lb"
  have lb1: "servers_ok ?lb1" using assms(1) by (simp add: addServer_ok)
  have "lb' = ?lb1 \<or> (\<exists>ok. removeServer ?lb1 = Some (ok, lb'))"
    using assms(2) False
    by (auto simp add: checkLoadBalancing_def Let_def split: if_splits)
  then show ?thesis using lb1 removeServer_ok by blast
qed

lemma processCycle_ok:
  assumes "servers_ok lb" and "LoadBalancer_processCycle lb = Some (completed, lb')"
  shows "servers_ok lb'"
proof -
  let ?lb1 = "lb\<lparr>servers := snd (processServers (servers lb) 0)\<rparr>"
  obtain lb3 where lb3: "checkLoadBalancing (distributeRequests ?lb1) = Some lb3"
    and lb': "lb' = lb3\<lparr>totalRequestsProcessed := totalRequestsProcessed lb3 + completed\<rparr>"
    using assms(2)
    by (auto simp add: LoadBalancer_processCycle_def Let_def split: option.splits)
  have "servers_ok ?lb1" using assms(1) by (simp add: servers_ok_def processServers_ok)
  then have "servers_ok lb3" using lb3 checkLoadBalancing_ok distributeRequests_ok by blast
  then show ?thesis by (simp add: lb' servers_ok_def)
qed

lemma apply_operation_ok:
  assumes "servers_ok lb" and "apply_operation lb op = Some lb'"
  shows "servers_ok lb'"
proof (cases op)
  case AddServer
  then show ?thesis using assms addServer_ok by auto
next
  case RemoveServer
  then show ?thesis using assms removeServer_ok by auto
next
  case (AddRequest r)
  then show ?thesis using assms
    by (auto simp add: servers_ok_def LoadBalancer_addRequest_def split: prod.splits)
next
  case ProcessCycle
  then show ?thesis using assms processCycle_ok by auto
next
  case DistributeRequests
  then show ?thesis using assms distributeRequests_ok by auto
next
  case CheckLoadBalancing
  then show ?thesis using assms checkLoadBalancing_ok by auto
next
  case (BlockIP ip)
  then show ?thesis using assms by (auto simp add: servers_ok_def blockIP_def)
next
  case (UnblockIP ip)
  then show ?thesis using assms by (auto simp add: servers_ok_def unblockIP_def)
qed

lemma run_ok: "servers_ok lb \<Longrightarrow> run lb ops = Some lb' \<Longrightarrow> servers_ok lb'"
proof (induction ops arbitrary: lb)
  case Nil
  then show ?case by simp
next
  case (Cons op ops)
  then obtain mid where mid: "apply_operation lb op = Some mid" and rest: "run mid ops = Some lb'"
    by (auto split: option.splits)
  show ?case using Cons.IH [OF apply_operation_ok [OF Cons.prems(1) mid] rest] .
qed

lemma addInitialServers_ok: "servers_ok lb \<Longrightarrow> servers_ok (addInitialServers i n lb)"
proof (induction i n lb rule: addInitialServers.induct)
  case (1 i n lb)
  show ?case
  proof (cases "i < n")
    case True
    then show ?thesis
      using "1.IH" [OF True addServer_ok [OF "1.prems"]]
      by (simp add: addInitialServers.simps [of i n lb])
  next
    case False
    then show ?thesis using "1.prems" by (simp add: addInitialServers.simps [of i n lb])
  qed
qed

lemma constructed_ok:
  "servers_ok (LoadBalancer_new initialServers maxServerCount minServerCount threshold)"
  "servers_ok LoadBalancer_default"
proof -
  have empty: "servers_ok \<lparr>servers = [], requestQueue = q, nextServerIndex = 0,
        totalRequestsProcessed = 0, totalProcessingTime = 0,
        maxServers = mx, minServers = mn, loadThreshold = t\<rparr>" for q mx mn t
    by (simp add: servers_ok_def)
  show "servers_ok (LoadBalancer_new initialServers maxServerCount minServerCount threshold)"
    unfolding LoadBalancer_new_def by (rule addInitialServers_ok [OF empty])
  show "servers_ok LoadBalancer_default"
    unfolding LoadBalancer_default_def by (rule addServer_ok [OF empty])
qed

lemma reachable_ok:
  "run (LoadBalancer_new initialServers maxServerCount minServerCount threshold) ops = Some lb
   \<or> run LoadBalancer_default ops = Some lb \<Longrightarrow> servers_ok lb"
  using run_ok constructed_ok by blast

section \<open>The scaling step\<close>

lemma utilizationLoop_sums:
  "utilizationLoop ss (totalUtilization, activeServers) =
     (foldl d_add totalUtilization (map WebServer_getUtilization (filter isActive ss)),
      activeServers + int (length (filter isActive ss)))"
  by (induction ss arbitrary: totalUtilization activeServers) simp_all

lemma getUtilization_is_load_over_capacity:
  "WebServer_getUtilization = load_over_capacity_percent"
  by (rule ext) (simp add: WebServer_getUtilization_def load_over_capacity_percent_def)

lemma getSystemUtilization_is_mean:
  "getSystemUtilization lb = mean_utilization_of_active (servers lb)"
proof (cases "filter isActive (servers lb) = []")
  case True
  then show ?thesis
    by (simp add: getSystemUtilization_def utilizationLoop_sums mean_utilization_of_active_def)
next
  case False
  then have "servers lb \<noteq> []" by auto
  then show ?thesis
    using False
    by (simp add: getSystemUtilization_def utilizationLoop_sums mean_utilization_of_active_def
        getUtilization_is_load_over_capacity)
qed

lemma server_ok_utilization: "server_ok w \<Longrightarrow> not_negative (WebServer_getUtilization w)"
  by (simp add: server_ok_def WebServer_getUtilization_def d_mul_not_negative
      d_div_not_negative d_of_int_not_negative d_literal_not_negative)

lemma foldl_d_add_not_negative:
  "not_negative start \<Longrightarrow> list_all not_negative xs \<Longrightarrow> not_negative (foldl d_add start xs)"
  by (induction xs arbitrary: start) (simp_all add: d_add_not_negative)

lemma utilization_not_negative:
  assumes "servers_ok lb"
  shows "not_negative (d_div (getSystemUtilization lb) (d_literal 100))"
proof -
  have "list_all not_negative (map WebServer_getUtilization (filter isActive (servers lb)))"
    using assms by (auto simp add: servers_ok_def list_all_iff server_ok_utilization)
  then have "not_negative
      (foldl d_add (Finite 0) (map WebServer_getUtilization (filter isActive (servers lb))))"
    by (intro foldl_d_add_not_negative) (simp_all add: pow2_def)
  then have "not_negative (getSystemUtilization lb)"
    by (simp add: getSystemUtilization_def utilizationLoop_sums d_div_not_negative
        d_of_int_not_negative pow2_def)
  then show ?thesis by (simp add: d_div_not_negative d_literal_not_negative)
qed

lemma scaling_guards_exclusive:
  assumes "servers_ok lb"
  shows "\<not> ((d_less (loadThreshold lb) (d_div (getSystemUtilization lb) (d_literal 100))
              \<or> getQueueSize lb > 10)
           \<and> d_less (d_div (getSystemUtilization lb) (d_literal 100))
                (d_mul (loadThreshold lb) (d_literal 0.05))
           \<and> getQueueSize lb = 0)"
  using utilization_guards_exclusive [OF utilization_not_negative [OF assms], of "loadThreshold lb"]
  by auto

lemma scaling_conditions_exclusive:
  "servers_ok lb \<Longrightarrow> \<not> (scale_up_condition lb \<and> scale_down_condition lb)"
  using scaling_guards_exclusive [of lb]
  by (auto simp add: scale_up_condition_def scale_down_condition_def
      getSystemUtilization_is_mean)

lemma checkLoadBalancing_result:
  assumes "servers_ok lb" and "servers lb \<noteq> []"
  shows "checkLoadBalancing lb =
           Some (if scale_up_condition lb then snd (addServer lb)
                 else if scale_down_condition lb then lb\<lparr>servers := butlast (servers lb)\<rparr>
                 else lb)"
proof (cases "scale_up_condition lb")
  case True
  then have pressure: "d_less (loadThreshold lb) (d_div (getSystemUtilization lb) (d_literal 100))
      \<or> getQueueSize lb > 10"
    by (simp add: scale_up_condition_def getSystemUtilization_is_mean)
  have "\<not> (d_less (d_div (getSystemUtilization lb) (d_literal 100))
                (d_mul (loadThreshold lb) (d_literal 0.05))
           \<and> getQueueSize lb = 0)"
    using scaling_guards_exclusive [OF assms(1)] pressure by blast
  then show ?thesis
    using True assms(2) pressure
    by (auto simp add: checkLoadBalancing_def Let_def scale_up_condition_def addServer_fixed
        getSystemUtilization_is_mean)
next
  case noup: False
  show ?thesis
  proof (cases "scale_down_condition lb")
    case True
    then have "\<not> int (length (servers lb)) \<le> minServers lb"
      by (simp add: scale_down_condition_def)
    then have "removeServer lb = Some (True, lb\<lparr>servers := butlast (servers lb)\<rparr>)"
      using assms(2) by (simp add: removeServer_def)
    then show ?thesis
      using True noup assms(2)
      by (auto simp add: checkLoadBalancing_def Let_def scale_up_condition_def
          scale_down_condition_def getSystemUtilization_is_mean)
  next
    case False
    then show ?thesis
      using noup assms(2)
      by (auto simp add: checkLoadBalancing_def Let_def scale_up_condition_def
          scale_down_condition_def getSystemUtilization_is_mean)
  qed
qed




text \<open>
  Claim C6. In every state that public calls can reach, one call of
  \<^verbatim>\<open>LoadBalancer::processCycle\<close> changes the number of servers by at most one. The
  call runs \<^verbatim>\<open>checkLoadBalancing\<close> on the state \<open>scaling\<close> it has after the servers
  have processed and the queue has been distributed; there both guards are read, and
  whatever the threshold, the utilization is never above the threshold or the queue above
  10 while the utilization is below 0.05 times the threshold and the queue is empty. The
  comparisons are those of \<^verbatim>\<open>double\<close>.
\<close>

theorem C6_one_change_per_cycle:
  assumes "run (LoadBalancer_new initialServers maxServerCount minServerCount threshold) ops
             = Some lb
           \<or> run LoadBalancer_default ops = Some lb"
    and "scaling = distributeRequests (lb\<lparr>servers := snd (processServers (servers lb) 0)\<rparr>)"
  shows "\<exists>completed lb'. LoadBalancer_processCycle lb = Some (completed, lb')
      \<and> \<bar>int (length (servers lb')) - int (length (servers lb))\<bar> \<le> 1
      \<and> checkLoadBalancing scaling
          = Some (lb'\<lparr>totalRequestsProcessed := totalRequestsProcessed scaling\<rparr>)
      \<and> \<not> ((d_less (loadThreshold scaling)
                 (d_div (getSystemUtilization scaling) (d_literal 100))
              \<or> getQueueSize scaling > 10)
           \<and> d_less (d_div (getSystemUtilization scaling) (d_literal 100))
                (d_mul (loadThreshold scaling) (d_literal 0.05))
           \<and> getQueueSize scaling = 0)
      \<and> \<not> (scale_up_condition scaling \<and> scale_down_condition scaling)"
proof -
  let ?lb1 = "lb\<lparr>servers := snd (processServers (servers lb) 0)\<rparr>"
  have ok: "servers_ok lb" using assms(1) by (rule reachable_ok)
  then have "servers_ok ?lb1" by (simp add: servers_ok_def processServers_ok)
  then have ok2: "servers_ok scaling" unfolding assms(2) by (rule distributeRequests_ok)
  have len2: "length (servers scaling) = length (servers lb)"
    unfolding assms(2) using distributeRequests_settings [of ?lb1]
    by (simp add: processServers_length)
  obtain lb3 where lb3: "checkLoadBalancing scaling = Some lb3"
    using checkLoadBalancing_defined [of scaling] by auto
  have change: "\<bar>int (length (servers lb3)) - int (length (servers scaling))\<bar> \<le> 1"
  proof (cases "servers scaling = []")
    case True
    then show ?thesis using lb3 by (simp add: checkLoadBalancing_def)
  next
    case False
    have "lb3 = (if scale_up_condition scaling then snd (addServer scaling)
                 else if scale_down_condition scaling
                      then scaling\<lparr>servers := butlast (servers scaling)\<rparr>
                 else scaling)"
      using checkLoadBalancing_result [OF ok2 False] lb3 by simp
    then show ?thesis by (auto simp add: addServer_def Let_def)
  qed
  have counter: "totalRequestsProcessed lb3 = totalRequestsProcessed scaling"
    using lb3
    by (auto simp add: checkLoadBalancing_def Let_def addServer_def removeServer_def
        split: if_splits)
  have cycle: "LoadBalancer_processCycle lb =
      Some (fst (processServers (servers lb) 0),
            lb3\<lparr>totalRequestsProcessed :=
                  totalRequestsProcessed lb3 + fst (processServers (servers lb) 0)\<rparr>)"
    using lb3 by (simp add: LoadBalancer_processCycle_def Let_def assms(2))
  note guards = scaling_guards_exclusive [OF ok2]
  have restore: "lb3\<lparr>totalRequestsProcessed :=
                  totalRequestsProcessed lb3 + fst (processServers (servers lb) 0),
               totalRequestsProcessed := totalRequestsProcessed scaling\<rparr> = lb3"
    using counter by simp
  show ?thesis
    using change len2 guards scaling_conditions_exclusive [OF ok2] lb3
    by (simp add: cycle restore)
qed

theorem C6_one_change_per_cycle_witness:
  "\<exists>completed lb'.
      LoadBalancer_processCycle (LoadBalancer_new 5 10 1 (d_literal 0.8)) = Some (completed, lb')
      \<and> \<bar>int (length (servers lb')) - 5\<bar> \<le> 1"
proof -
  let ?a = "LoadBalancer_new 5 10 1 (d_literal 0.8)"
  have a_run: "run ?a [] = Some ?a \<or> run LoadBalancer_default [] = Some ?a" by simp
  have a_len: "int (length (servers ?a)) = 5" by code_simp
  show ?thesis using C6_one_change_per_cycle [OF a_run refl] a_len by auto
qed

section \<open>The rotation cursor\<close>

text \<open>
  Claim C9 says that the cursor is always an index into a non-empty pool.
  \<^verbatim>\<open>removeServer\<close> does not touch \<^verbatim>\<open>nextServerIndex\<close>: with five idle servers,
  four requests of one cycle each move the cursor to 4 in the first
  \<^verbatim>\<open>processCycle\<close>, and the second \<^verbatim>\<open>processCycle\<close> completes them and drops the
  fifth server, which leaves cursor 4 in a pool of 4.
\<close>

theorem C9_cursor_counterexample:
  "map_option cursor_and_pool_size
     (run (LoadBalancer_new 5 10 1 (d_literal 0.8))
        [AddRequest (Request_new ''1.2.3.4'' ''GET'' 5 1 1),
         AddRequest (Request_new ''1.2.3.4'' ''GET'' 5 1 2),
         AddRequest (Request_new ''1.2.3.4'' ''GET'' 5 1 3),
         AddRequest (Request_new ''1.2.3.4'' ''GET'' 5 1 4),
         ProcessCycle, ProcessCycle])
   = Some (4, 4)
   \<and> map_option cursor_valid
     (run (LoadBalancer_new 5 10 1 (d_literal 0.8))
        [AddRequest (Request_new ''1.2.3.4'' ''GET'' 5 1 1),
         AddRequest (Request_new ''1.2.3.4'' ''GET'' 5 1 2),
         AddRequest (Request_new ''1.2.3.4'' ''GET'' 5 1 3),
         AddRequest (Request_new ''1.2.3.4'' ''GET'' 5 1 4),
         ProcessCycle, ProcessCycle])
   = Some False"
  by code_simp

lemma checkLoadBalancing_cursor:
  "checkLoadBalancing lb = Some lb' \<Longrightarrow> nextServerIndex lb' = nextServerIndex lb"
  by (auto simp add: checkLoadBalancing_def Let_def addServer_def removeServer_def
      split: if_splits)

lemma distributeRequests_cursor:
  "cursor_in_range lb \<Longrightarrow> cursor_in_range (distributeRequests lb)"
proof (rule distributeRequests_preserves [of cursor_in_range])
  fix lb' assume "cursor_in_range lb'"
  then show "cursor_in_range (lb'\<lparr>requestQueue := snd (getNextRequest (requestQueue lb'))\<rparr>)"
    by (simp add: cursor_in_range_def)
next
  fix lb' :: LoadBalancer and c assume "c < length (servers lb')"
  then have "0 < length (servers lb')" by (cases "servers lb'") simp_all
  then show "cursor_in_range (placeRequest lb' c)"
    by (simp add: cursor_in_range_def placeRequest_def)
qed

lemma apply_operation_cursor:
  assumes "cursor_in_range lb" and "apply_operation lb op = Some lb'"
    and "length (servers lb) \<le> length (servers lb')"
  shows "cursor_in_range lb'"
proof (cases op)
  case AddServer
  then show ?thesis using assms by (auto simp add: cursor_in_range_def addServer_fixed)
next
  case RemoveServer
  then show ?thesis using assms
    by (auto simp add: cursor_in_range_def removeServer_def split: if_splits)
next
  case (AddRequest r)
  then show ?thesis using assms
    by (auto simp add: cursor_in_range_def LoadBalancer_addRequest_def split: prod.splits)
next
  case ProcessCycle
  then obtain completed where pc: "LoadBalancer_processCycle lb = Some (completed, lb')"
    using assms(2) by auto
  let ?lb1 = "lb\<lparr>servers := snd (processServers (servers lb) 0)\<rparr>"
  obtain lb3 where lb3: "checkLoadBalancing (distributeRequests ?lb1) = Some lb3"
    and lb': "lb' = lb3\<lparr>totalRequestsProcessed := totalRequestsProcessed lb3 + completed\<rparr>"
    using pc by (auto simp add: LoadBalancer_processCycle_def Let_def split: option.splits)
  have "cursor_in_range ?lb1"
    using assms(1) by (simp add: cursor_in_range_def processServers_length)
  then have "cursor_in_range (distributeRequests ?lb1)" by (rule distributeRequests_cursor)
  moreover have "length (servers (distributeRequests ?lb1)) = length (servers lb)"
    using distributeRequests_settings [of ?lb1] by (simp add: processServers_length)
  moreover have "nextServerIndex lb' = nextServerIndex (distributeRequests ?lb1)"
    using checkLoadBalancing_cursor [OF lb3] by (simp add: lb')
  ultimately show ?thesis using assms(3) by (auto simp add: cursor_in_range_def)
next
  case DistributeRequests
  then show ?thesis using assms distributeRequests_cursor by auto
next
  case CheckLoadBalancing
  then show ?thesis using assms checkLoadBalancing_cursor [of lb lb']
    by (auto simp add: cursor_in_range_def)
next
  case (BlockIP ip)
  then show ?thesis using assms by (auto simp add: cursor_in_range_def blockIP_def)
next
  case (UnblockIP ip)
  then show ?thesis using assms by (auto simp add: cursor_in_range_def unblockIP_def)
qed

text \<open>
  Every placement writes the cursor: a scan of \<^verbatim>\<open>distributeRequests\<close> either
  leaves the load balancer as it is or ends where it has placed a request, with the
  cursor one place after the server it used, modulo the size of the pool. (A server that
  can accept a request does accept it, so no request is taken and lost.)
\<close>

lemma scanServers_result:
  "scanServers lb serverIndex i = (False, lb)
   \<or> (fst (scanServers lb serverIndex i)
      \<and> nextServerIndex (snd (scanServers lb serverIndex i))
          < length (servers (snd (scanServers lb serverIndex i))))"
proof (induction lb serverIndex i rule: scanServers.induct)
  case (1 lb serverIndex i)
  show ?case
  proof (cases "i < length (servers lb)")
    case False
    then show ?thesis by (simp add: scanServers.simps [of lb serverIndex i])
  next
    case inrange: True
    let ?c = "(serverIndex + i) mod length (servers lb)"
    have pool: "0 < length (servers lb)" using inrange by (cases "servers lb") simp_all
    show ?thesis
    proof (cases "canAcceptRequest (servers lb ! ?c)")
      case False
      with inrange "1.IH"(2) show ?thesis
        by (simp add: scanServers.simps [of lb serverIndex i])
    next
      case can: True
      then have "fst (WebServer_addRequest (fst (getNextRequest (requestQueue lb)))
                        (servers lb ! ?c))"
        by (simp add: canAcceptRequest_def WebServer_addRequest_def)
      then show ?thesis
        using inrange can pool
        by (simp add: scanServers.simps [of lb serverIndex i] Let_def)
    qed
  qed
qed

lemma distributeLoop_result:
  "distributeLoop lb attempts maxAttempts = lb
   \<or> nextServerIndex (distributeLoop lb attempts maxAttempts)
       < length (servers (distributeLoop lb attempts maxAttempts))"
proof (induction lb attempts maxAttempts rule: distributeLoop.induct)
  case (1 lb attempts maxAttempts)
  let ?scanned = "scanServers lb (nextServerIndex lb) 0"
  show ?case
  proof (cases "\<not> RequestQueue_isEmpty (requestQueue lb) \<and> attempts < maxAttempts")
    case False
    then show ?thesis by (auto simp add: distributeLoop.simps [of lb attempts maxAttempts])
  next
    case again: True
    show ?thesis
    proof (cases "fst ?scanned")
      case False
      then have "?scanned = (False, lb)"
        using scanServers_result [of lb "nextServerIndex lb" 0] by auto
      then show ?thesis
        using again by (simp add: distributeLoop.simps [of lb attempts maxAttempts])
    next
      case True
      then have placed: "nextServerIndex (snd ?scanned) < length (servers (snd ?scanned))"
        using scanServers_result [of lb "nextServerIndex lb" 0] by auto
      have step: "distributeLoop lb attempts maxAttempts
          = distributeLoop (snd ?scanned) (attempts + 1) maxAttempts"
        using again True by (simp add: distributeLoop.simps [of lb attempts maxAttempts] Let_def)
      from "1.IH" [OF again refl] True
      have "distributeLoop (snd ?scanned) (attempts + 1) maxAttempts = snd ?scanned
          \<or> nextServerIndex (distributeLoop (snd ?scanned) (attempts + 1) maxAttempts)
              < length (servers (distributeLoop (snd ?scanned) (attempts + 1) maxAttempts))"
        by simp
      then show ?thesis using placed by (auto simp add: step)
    qed
  qed
qed

lemma distributeRequests_result:
  "distributeRequests lb = lb
   \<or> nextServerIndex (distributeRequests lb) < length (servers (distributeRequests lb))"
  using distributeLoop_result [of lb 0 "int (length (servers lb)) * 2"]
  by (simp add: distributeRequests_def)

text \<open>A call that leaves the admission queue shorter and the pool no smaller leaves the
  cursor inside the pool.\<close>

lemma checkLoadBalancing_queue:
  "checkLoadBalancing lb = Some lb' \<Longrightarrow> requestQueue lb' = requestQueue lb"
  by (auto simp add: checkLoadBalancing_def Let_def addServer_def removeServer_def
      split: if_splits)

lemma placement_sets_cursor:
  assumes "apply_operation lb op = Some lb'"
    and "length (rq_requestQueue (requestQueue lb')) < length (rq_requestQueue (requestQueue lb))"
    and "length (servers lb) \<le> length (servers lb')"
  shows "nextServerIndex lb' < length (servers lb')"
proof (cases op)
  case AddServer
  then show ?thesis using assms by (auto simp add: addServer_fixed)
next
  case RemoveServer
  then show ?thesis using assms by (auto simp add: removeServer_def split: if_splits)
next
  case (AddRequest r)
  then show ?thesis using assms
    by (auto simp add: LoadBalancer_addRequest_def RequestQueue_addRequest_def
        split: prod.splits if_splits)
next
  case ProcessCycle
  then obtain completed where pc: "LoadBalancer_processCycle lb = Some (completed, lb')"
    using assms(1) by auto
  let ?lb1 = "lb\<lparr>servers := snd (processServers (servers lb) 0)\<rparr>"
  obtain lb3 where lb3: "checkLoadBalancing (distributeRequests ?lb1) = Some lb3"
    and lb': "lb' = lb3\<lparr>totalRequestsProcessed := totalRequestsProcessed lb3 + completed\<rparr>"
    using pc by (auto simp add: LoadBalancer_processCycle_def Let_def split: option.splits)
  have "requestQueue lb' = requestQueue (distributeRequests ?lb1)"
    using checkLoadBalancing_queue [OF lb3] by (simp add: lb')
  then have "distributeRequests ?lb1 \<noteq> ?lb1" using assms(2) by auto
  then have "nextServerIndex (distributeRequests ?lb1)
      < length (servers (distributeRequests ?lb1))"
    using distributeRequests_result [of ?lb1] by simp
  moreover have "length (servers (distributeRequests ?lb1)) = length (servers lb)"
    using distributeRequests_settings [of ?lb1] by (simp add: processServers_length)
  moreover have "nextServerIndex lb' = nextServerIndex (distributeRequests ?lb1)"
    using checkLoadBalancing_cursor [OF lb3] by (simp add: lb')
  ultimately show ?thesis using assms(3) by simp
next
  case DistributeRequests
  then have "distributeRequests lb \<noteq> lb" using assms(1,2) by auto
  then show ?thesis
    using DistributeRequests assms(1) distributeRequests_result [of lb] by auto
next
  case CheckLoadBalancing
  then show ?thesis using assms checkLoadBalancing_queue [of lb lb'] by auto
next
  case (BlockIP ip)
  then show ?thesis using assms
    by (auto simp add: blockIP_def RequestQueue_blockIP_def split: if_splits)
next
  case (UnblockIP ip)
  then show ?thesis using assms
    by (auto simp add: unblockIP_def RequestQueue_unblockIP_def split: if_splits)
qed

lemma run_cursor:
  "shrunk \<or> cursor_in_range lb \<Longrightarrow> run lb ops = Some lb' \<Longrightarrow>
     \<not> shrunk_since_placement shrunk lb ops \<Longrightarrow> cursor_in_range lb'"
proof (induction ops arbitrary: lb shrunk)
  case Nil
  then show ?case by simp
next
  case (Cons op ops)
  then obtain mid where mid: "apply_operation lb op = Some mid" and rest: "run mid ops = Some lb'"
    by (auto split: option.splits)
  define flag where "flag =
     (if length (servers mid) < length (servers lb) then True
      else if length (rq_requestQueue (requestQueue mid))
                < length (rq_requestQueue (requestQueue lb))
           then False
      else shrunk)"
  have later: "\<not> shrunk_since_placement flag mid ops"
    using Cons.prems(3) mid by (simp add: flag_def)
  have "flag \<or> cursor_in_range mid"
  proof (cases "length (servers mid) < length (servers lb)")
    case True
    then show ?thesis by (simp add: flag_def)
  next
    case False
    then have grow: "length (servers lb) \<le> length (servers mid)" by simp
    show ?thesis
    proof (cases "length (rq_requestQueue (requestQueue mid))
                    < length (rq_requestQueue (requestQueue lb))")
      case True
      then show ?thesis
        using placement_sets_cursor [OF mid True grow] by (simp add: cursor_in_range_def)
    next
      case same: False
      show ?thesis
      proof (cases shrunk)
        case True
        then show ?thesis using False same by (simp add: flag_def)
      next
        case False
        then have "cursor_in_range lb" using Cons.prems(1) by simp
        then show ?thesis using apply_operation_cursor [OF _ mid grow] by simp
      qed
    qed
  qed
  then show ?case using Cons.IH [OF _ rest later] by simp
qed

text \<open>
  Claim C9, amended. In every state reached from a constructor (or from any state whose
  cursor is an index into the pool) by public calls, in which the pool has not become
  smaller since a request was last placed on a server, or since the start when none was
  placed, the cursor is an index into the pool whenever the pool is not empty. This
  covers the states after a \<^verbatim>\<open>processCycle\<close> that has shrunk the pool as soon as
  the next request is placed; the states the claim loses are those of the counterexample,
  between a shrink and the next placement.
\<close>

theorem C9_cursor_valid_since_placement:
  assumes "lb0 = LoadBalancer_new initialServers maxServerCount minServerCount threshold
           \<or> lb0 = LoadBalancer_default
           \<or> nextServerIndex lb0 < length (servers lb0)"
    and "\<not> shrunk_since_placement False lb0 ops"
    and "run lb0 ops = Some lb"
    and "servers lb \<noteq> []"
  shows "nextServerIndex lb < length (servers lb) \<and> cursor_valid lb"
proof -
  have "cursor_in_range lb0"
    using assms(1)
    by (auto simp add: cursor_in_range_def LoadBalancer_new_fields LoadBalancer_default_fields)
  then have "False \<or> cursor_in_range lb0" by simp
  then have "cursor_in_range lb" using assms(3,2) by (rule run_cursor)
  then show ?thesis using assms(4) by (auto simp add: cursor_in_range_def cursor_valid_def)
qed

text \<open>
  With five idle servers the first \<^verbatim>\<open>processCycle\<close> drops the fifth one; the next
  one places a request on the first server and leaves cursor 1 in a pool of 4.
\<close>

theorem C9_cursor_valid_since_placement_witness:
  "shrunk_since_placement False (LoadBalancer_new 5 10 1 (d_literal 0.8)) [ProcessCycle]
   \<and> \<not> shrunk_since_placement False (LoadBalancer_new 5 10 1 (d_literal 0.8))
          [ProcessCycle, AddRequest (Request_new ''1.2.3.4'' ''GET'' 5 3 1), ProcessCycle]
   \<and> map_option cursor_and_pool_size
        (run (LoadBalancer_new 5 10 1 (d_literal 0.8))
          [ProcessCycle, AddRequest (Request_new ''1.2.3.4'' ''GET'' 5 3 1), ProcessCycle])
      = Some (1, 4)"
proof -
  let ?lb0 = "LoadBalancer_new 5 10 1 (d_literal 0.8)"
  let ?ops = "[ProcessCycle, AddRequest (Request_new ''1.2.3.4'' ''GET'' 5 3 1), ProcessCycle]"
  have h1: "?lb0 = LoadBalancer_new 5 10 1 (d_literal 0.8) \<or> ?lb0 = LoadBalancer_default
      \<or> nextServerIndex ?lb0 < length (servers ?lb0)" by simp
  have h0: "shrunk_since_placement False ?lb0 [ProcessCycle]" by code_simp
  have h2: "\<not> shrunk_since_placement False ?lb0 ?ops" by code_simp
  have res: "map_option cursor_and_pool_size (run ?lb0 ?ops) = Some (1, 4)" by code_simp
  then obtain lb where lb: "run ?lb0 ?ops = Some lb"
    and cur: "nextServerIndex lb = 1" and len: "length (servers lb) = 4"
    by (auto simp add: cursor_and_pool_size_def)
  have h4: "servers lb \<noteq> []" using len by auto
  have "nextServerIndex lb < length (servers lb)"
    using C9_cursor_valid_since_placement [OF h1 h2 lb h4] by simp
  then show ?thesis using h0 h2 res by simp
qed

section \<open>Round-robin distribution over an idle pool\<close>

lemma rotation_injective:
  fixes c j k N :: nat
  assumes "j < N" and "k < N" and "(c + j) mod N = (c + k) mod N"
  shows "j = k"
proof -
  have aux: "a = b" if "a \<le> b" "b < N" "(c + a) mod N = (c + b) mod N" for a b :: nat
  proof -
    have "N dvd b - a"
      using mod_eq_dvd_iff_nat [of "c + a" "c + b" N] that(1,3) by simp
    moreover have "b - a < N" using that(2) by simp
    ultimately have "b - a = 0" by (meson dvd_imp_le not_less zero_less_iff_neq_zero)
    then show ?thesis using that(1) by simp
  qed
  show ?thesis
  proof (cases "j \<le> k")
    case True
    then show ?thesis using aux [of j k] assms by simp
  next
    case False
    then show ?thesis using aux [of k j] assms by simp
  qed
qed

lemma rotation_surjective:
  fixes c p N :: nat
  assumes "p < N"
  shows "\<exists>j<N. (c + j) mod N = p"
proof -
  let ?r = "c mod N"
  let ?j = "(p + N - ?r) mod N"
  have r: "?r < N" using assms by simp
  have "(c + ?j) mod N = (?r + (p + N - ?r)) mod N"
    by (metis mod_add_eq mod_mod_trivial)
  also have "\<dots> = (p + N) mod N" using r by simp
  also have "\<dots> = p" using assms by simp
  finally have "(c + ?j) mod N = p" .
  moreover have "?j < N" using assms by simp
  ultimately show ?thesis by blast
qed

lemma scanServers_places_at_cursor:
  assumes "servers lb \<noteq> []"
    and "canAcceptRequest (servers lb ! (serverIndex mod length (servers lb)))"
  shows "scanServers lb serverIndex 0 =
           (True, placeRequest lb (serverIndex mod length (servers lb)))"
proof -
  have pos: "0 < length (servers lb)" using assms(1) by simp
  have "fst (WebServer_addRequest r (servers lb ! (serverIndex mod length (servers lb))))" for r
    using assms(2) by (simp add: WebServer_addRequest_def canAcceptRequest_def)
  then show ?thesis
    using pos assms(2)
    by (simp add: scanServers.simps [of lb serverIndex 0] Let_def placeRequest_def)
qed

lemma placement_step:
  assumes pool: "servers lb \<noteq> []"
    and idle: "list_all idle_server (servers lb)"
    and full: "length (rq_requestQueue (requestQueue lb)) = length (servers lb)"
    and inv: "placed_in_rotation lb k lbk"
    and k: "k < length (servers lb)"
  shows "\<exists>next. scanServers lbk (nextServerIndex lbk) 0 = (True, next)
           \<and> placed_in_rotation lb (Suc k) next"
proof -
  let ?N = "length (servers lb)"
  let ?c = "nextServerIndex lb"
  let ?q = "rq_requestQueue (requestQueue lb)"
  let ?pos = "\<lambda>j. (?c + j) mod ?N"
  have N: "0 < ?N" using pool by simp
  have len: "length (servers lbk) = ?N"
    and queue: "rq_requestQueue (requestQueue lbk) = drop k ?q"
    and cursor: "nextServerIndex lbk mod ?N = ?pos k"
    and at: "\<And>j. j < ?N \<Longrightarrow> servers lbk ! ?pos j =
              (if j < k then (servers lb ! ?pos j)\<lparr>ws_requestQueue := [?q ! j], currentLoad := 1\<rparr>
               else servers lb ! ?pos j)"
    using inv by (simp_all add: placed_in_rotation_def)
  have posk: "?pos k < ?N" using N by simp
  have here: "servers lbk ! ?pos k = servers lb ! ?pos k" using at [OF k] by simp
  have idle_here: "idle_server (servers lb ! ?pos k)"
    using idle posk by (simp add: list_all_length)
  have idx: "nextServerIndex lbk mod length (servers lbk) = ?pos k" by (simp add: len cursor)
  have can: "canAcceptRequest (servers lbk ! (nextServerIndex lbk mod length (servers lbk)))"
    using idle_here by (simp add: idx here canAcceptRequest_def idle_server_def)
  have nonempty: "servers lbk \<noteq> []" using len N by auto
  let ?next = "placeRequest lbk (?pos k)"
  have scan: "scanServers lbk (nextServerIndex lbk) 0 = (True, ?next)"
    using scanServers_places_at_cursor [OF nonempty can] by (simp add: idx)
  have head: "drop k ?q = ?q ! k # drop (Suc k) ?q"
    using k full by (simp add: Cons_nth_drop_Suc)
  have taken: "getNextRequest (requestQueue lbk)
      = (?q ! k, (requestQueue lbk)\<lparr>rq_requestQueue := drop (Suc k) ?q,
            totalRequestsRemoved := totalRequestsRemoved (requestQueue lbk) + 1\<rparr>)"
    by (simp add: getNextRequest_def queue head)
  have added: "snd (WebServer_addRequest (?q ! k) (servers lb ! ?pos k))
      = (servers lb ! ?pos k)\<lparr>ws_requestQueue := [?q ! k], currentLoad := 1\<rparr>"
    using idle_here by (simp add: WebServer_addRequest_def idle_server_def)
  have next_servers: "servers ?next =
      (servers lbk)[?pos k := (servers lb ! ?pos k)\<lparr>ws_requestQueue := [?q ! k], currentLoad := 1\<rparr>]"
    by (simp add: placeRequest_def here taken added)
  have next_queue: "rq_requestQueue (requestQueue ?next) = drop (Suc k) ?q"
    by (simp add: placeRequest_def taken)
  have next_cursor: "nextServerIndex ?next mod ?N = ?pos (Suc k)"
    by (simp add: placeRequest_def len mod_Suc_eq)
  have next_at: "servers ?next ! ?pos j =
      (if j < Suc k then (servers lb ! ?pos j)\<lparr>ws_requestQueue := [?q ! j], currentLoad := 1\<rparr>
       else servers lb ! ?pos j)" if j: "j < ?N" for j
  proof (cases "j = k")
    case True
    then show ?thesis using posk by (simp add: next_servers len)
  next
    case False
    then have "?pos j \<noteq> ?pos k" using rotation_injective [OF j k] by blast
    then have "servers ?next ! ?pos j = servers lbk ! ?pos j" by (simp add: next_servers)
    then show ?thesis using at [OF j] False by auto
  qed
  have "placed_in_rotation lb (Suc k) ?next"
    unfolding placed_in_rotation_def
    using next_queue next_cursor next_at by (simp add: next_servers len)
  then show ?thesis using scan by blast
qed

lemma distributeLoop_places_all:
  assumes pool: "servers lb \<noteq> []"
    and idle: "list_all idle_server (servers lb)"
    and full: "length (rq_requestQueue (requestQueue lb)) = length (servers lb)"
  shows "placed_in_rotation lb k lbk \<Longrightarrow> k \<le> length (servers lb) \<Longrightarrow>
     placed_in_rotation lb (length (servers lb))
       (distributeLoop lbk (int k) (int (length (servers lb)) * 2))"
proof (induction "length (servers lb) - k" arbitrary: k lbk)
  case 0
  then have k: "k = length (servers lb)" by simp
  have "rq_requestQueue (requestQueue lbk) = []"
    using "0.prems"(1) full by (simp add: placed_in_rotation_def k)
  then have "distributeLoop lbk (int k) (int (length (servers lb)) * 2) = lbk"
    by (simp add: distributeLoop.simps [of lbk] RequestQueue_isEmpty_def)
  then show ?case using "0.prems"(1) k by simp
next
  case (Suc d)
  then have k: "k < length (servers lb)" by simp
  obtain "next" where step: "scanServers lbk (nextServerIndex lbk) 0 = (True, next)"
    and inv': "placed_in_rotation lb (Suc k) next"
    using placement_step [OF pool idle full Suc.prems(1) k] by blast
  have "rq_requestQueue (requestQueue lbk) \<noteq> []"
    using Suc.prems(1) full k by (simp add: placed_in_rotation_def)
  then have unfold: "distributeLoop lbk (int k) (int (length (servers lb)) * 2)
      = distributeLoop next (int k + 1) (int (length (servers lb)) * 2)"
    using k step
    by (simp add: distributeLoop.simps [of lbk "int k"] RequestQueue_isEmpty_def)
  have "placed_in_rotation lb (length (servers lb))
      (distributeLoop next (int (Suc k)) (int (length (servers lb)) * 2))"
    using Suc.hyps(1) [of "Suc k" "next"] Suc.hyps(2) inv' k by simp
  then show ?case using unfold by (simp add: add.commute)
qed

text \<open>
  Claim C4. Let the pool hold \<open>N \<ge> 1\<close> servers, each active, with load 0 (and, the load
  counting the server's queue, nothing queued) and capacity at least 1, and let the
  admission queue hold exactly \<open>N\<close> requests. Then after one call of
  \<^verbatim>\<open>distributeRequests\<close>, wherever the cursor stood, every server holds exactly one
  request and has load 1, and the admission queue is empty; request \<open>j\<close> of the queue is
  on the server \<open>j\<close> places after the cursor.
\<close>

theorem C4_round_robin_fairness:
  assumes "servers lb \<noteq> []"
    and "\<forall>w\<in>set (servers lb).
           isActive w \<and> currentLoad w = 0 \<and> ws_requestQueue w = [] \<and> 1 \<le> maxCapacity w"
    and "length (rq_requestQueue (requestQueue lb)) = length (servers lb)"
  shows "length (servers (distributeRequests lb)) = length (servers lb)
       \<and> (\<forall>w\<in>set (servers (distributeRequests lb)).
             length (ws_requestQueue w) = 1 \<and> currentLoad w = 1)
       \<and> rq_requestQueue (requestQueue (distributeRequests lb)) = []
       \<and> (\<forall>j<length (servers lb).
             ws_requestQueue
               (servers (distributeRequests lb)
                  ! ((nextServerIndex lb + j) mod length (servers lb)))
             = [rq_requestQueue (requestQueue lb) ! j])"
proof -
  let ?N = "length (servers lb)"
  let ?lb' = "distributeRequests lb"
  let ?pos = "\<lambda>j. (nextServerIndex lb + j) mod ?N"
  have idle: "list_all idle_server (servers lb)"
    using assms(2) by (simp add: list_all_iff idle_server_def)
  have start: "placed_in_rotation lb 0 lb" by (simp add: placed_in_rotation_def)
  have nonempty: "\<not> RequestQueue_isEmpty (requestQueue lb)"
    using assms(1,3) by (auto simp add: RequestQueue_isEmpty_def)
  have "placed_in_rotation lb ?N (distributeLoop lb (int 0) (int ?N * 2))"
    using distributeLoop_places_all [OF assms(1) idle assms(3) start] by simp
  then have final: "placed_in_rotation lb ?N ?lb'"
    using nonempty by (simp add: distributeRequests_def)
  have len: "length (servers ?lb') = ?N"
    and queue: "rq_requestQueue (requestQueue ?lb') = []"
    and at: "\<And>j. j < ?N \<Longrightarrow> servers ?lb' ! ?pos j =
          (servers lb ! ?pos j)\<lparr>ws_requestQueue := [rq_requestQueue (requestQueue lb) ! j],
                                currentLoad := 1\<rparr>"
    using final assms(3) by (simp_all add: placed_in_rotation_def)
  have each: "length (ws_requestQueue w) = 1 \<and> currentLoad w = 1"
    if mem: "w \<in> set (servers ?lb')" for w
  proof -
    obtain p where p: "p < ?N" and w: "w = servers ?lb' ! p"
      using mem len by (auto simp add: in_set_conv_nth)
    obtain j where j: "j < ?N" and pj: "?pos j = p"
      using rotation_surjective [OF p] by blast
    have "w = servers ?lb' ! ?pos j" using w pj by simp
    then show ?thesis using at [OF j] by simp
  qed
  have order: "ws_requestQueue (servers ?lb' ! ?pos j) = [rq_requestQueue (requestQueue lb) ! j]"
    if "j < ?N" for j
    using at [OF that] by simp
  show ?thesis
    by (intro conjI ballI allI impI) (simp_all add: len each queue order)
qed

theorem C4_round_robin_fairness_witness:
  "map (\<lambda>w. map requestID (ws_requestQueue w))
     (servers (distributeRequests three_idle_three_queued)) = [[3], [1], [2]]
   \<and> map currentLoad (servers (distributeRequests three_idle_three_queued)) = [1, 1, 1]
   \<and> rq_requestQueue (requestQueue (distributeRequests three_idle_three_queued)) = []"
proof -
  let ?lb = three_idle_three_queued
  have h1: "servers ?lb \<noteq> []" by code_simp
  have h2: "\<forall>w\<in>set (servers ?lb).
      isActive w \<and> currentLoad w = 0 \<and> ws_requestQueue w = [] \<and> 1 \<le> maxCapacity w"
    by code_simp
  have h3: "length (rq_requestQueue (requestQueue ?lb)) = length (servers ?lb)" by code_simp
  have layout: "map (\<lambda>w. map requestID (ws_requestQueue w)) (servers (distributeRequests ?lb))
      = [[3], [1], [2]]"
    and loads: "map currentLoad (servers (distributeRequests ?lb)) = [1, 1, 1]"
    by code_simp+
  have "rq_requestQueue (requestQueue (distributeRequests ?lb)) = []"
    using C4_round_robin_fairness [OF h1 h2 h3] by blast
  then show ?thesis using layout loads by simp
qed

end
